theory Spec2Isabelle
  imports Main "HOL-Library.FSet"
begin

section \<open>Data model\<close>

text \<open>
  Cases, collections and attributes are identified by their numeric IDs. A reference to a
  \<open>DG.Case\<close> object is the ID of the object in the table of case objects below: the
  object stays there after it is destroyed (the change object of a deletion still holds
  it), with its \<open>isDestroyed\<close> flag set.
\<close>

type_synonym case_id = nat
type_synonym coll_id = nat
type_synonym attr_id = nat

text \<open>
  A JavaScript value as it occurs in a case or in the \<open>values\<close> of a change: a number,
  a string, a boolean, \<open>null\<close>, \<open>undefined\<close>, or an array of such values.
\<close>

datatype cell = NumV int | StrV string | BoolV bool | NullV | UndefinedV | ArrayV "cell list"

record dg_case =
  collection :: coll_id
  parent :: "case_id option"
  children :: "case_id list"
  valuesMap :: "(attr_id \<times> cell) list"
  isDestroyed :: bool

text \<open>
  A \<open>DG.CollectionClient\<close>: \<open>casesController\<close> is the ordered content of its
  cases controller, \<open>selection\<close> the controller's selection set.
\<close>

record collection_client =
  name :: string
  parentCollectionID :: "coll_id option"
  attributeIDs :: "attr_id list"
  casesController :: "case_id list"
  selection :: "case_id fset"

section \<open>Changes and the data context (\<open>DG.DataContext\<close>)\<close>

datatype operation =
    CreateCollection | CreateCase | CreateCases | UpdateCases | DeleteCases | SelectCases
  | CreateAttributes | UpdateAttributes | DeleteAttributes | ResetCollections
  | UnknownOperation string

text \<open>\<open>iChange.collection\<close> is the name of a collection or a collection client.\<close>

datatype collection_ref = CollectionName string | CollectionClient coll_id

text \<open>
  \<open>iChange.properties.parent\<close>: absent, the ID of a case, a case object, or \<open>null\<close>.
  \<open>typeof\<close> is \<open>'object'\<close> for the last two only.
\<close>

datatype parent_ref = ParentUndefined | ParentID case_id | ParentCase case_id | ParentNull

record case_properties =
  parentRef :: parent_ref
  index :: "nat option"

text \<open>A result object: \<open>caseIDs\<close> and \<open>caseID\<close> are absent from some results.\<close>

record change_result =
  success :: bool
  caseIDs :: "case_id list option"
  caseID :: "case_id option"

text \<open>
  A change object. \<open>targetCollection\<close> is \<open>iChange.collection\<close>, \<open>extendFlag\<close>
  is \<open>iChange.extend\<close> and \<open>cellValues\<close> is \<open>iChange.values\<close>; \<open>ids\<close> and \<open>collectionIDs\<close> are written by
  \<open>doDeleteCases\<close>, and \<open>result\<close> by \<open>applyChange\<close>.
\<close>

record change =
  operation :: operation
  isComplete :: bool
  targetCollection :: "collection_ref option"
  cases :: "case_id list option"
  select :: bool
  extendFlag :: bool
  properties :: "case_properties option"
  cellValues :: "cell list option"
  ids :: "case_id list"
  collectionIDs :: "coll_id list"
  result :: "change_result option"

text \<open>
  What the command of a deletion keeps for its undo: per deleted case the old case, its
  values map and its index in its collection; and the map from old to new cases that
  the undo fills.
\<close>

record deleted_case =
  oldCase :: case_id
  oldValues :: "(attr_id \<times> cell) list"
  oldIndex :: "nat option"

record command =
  commandName :: string
  commandChange :: change
  undoData :: "deleted_case list"
  oldCaseToNewCaseMap :: "(case_id \<times> case_id) list"

text \<open>
  The data context. \<open>priv_changeCount\<close> and \<open>priv_prevChangeCount\<close> are the
  private \<open>_changeCount\<close> and \<open>_prevChangeCount\<close>; \<open>invokeLastQueue\<close> counts
  the closures that \<open>applyChange\<close> has handed to \<open>invokeLast\<close> and that the run
  loop has not run yet. \<open>collections\<close> lists the IDs of the collections from parent to
  child, \<open>collectionClients\<close> is \<open>_collectionClients\<close>. \<open>caseObjects\<close> holds
  the case objects and \<open>nextCaseID\<close> the ID of the next case created (both belong to
  \<open>DG.store\<close>); \<open>undoStack\<close> is the undo stack of \<open>DG.UndoHistory\<close>, newest
  first, and \<open>dirtyCount\<close> counts the calls of \<open>DG.dirtyCurrentDocument\<close>.
\<close>

record data_context =
  changeCount :: nat
  selectionChangeCount :: nat
  changes :: "change list"
  priv_changeCount :: nat
  priv_prevChangeCount :: nat
  invokeLastQueue :: nat
  collections :: "coll_id list"
  collectionClients :: "coll_id \<rightharpoonup> collection_client"
  caseObjects :: "case_id \<rightharpoonup> dg_case"
  nextCaseID :: case_id
  undoStack :: "command list"
  dirtyCount :: nat

text \<open>
  Modelled from the spec: \<open>DG.store\<close> is not among the sources. \<open>DG.store.find\<close>
  resolves an ID to the existing, non-deleted case of that ID, and to nothing otherwise.
\<close>

definition storeFind :: "(case_id \<rightharpoonup> dg_case) \<Rightarrow> case_id \<Rightarrow> dg_case option" where
  "storeFind objs i =
     (case objs i of
        None \<Rightarrow> None
      | Some c \<Rightarrow> if isDestroyed c then None else Some c)"

definition getCaseByID :: "data_context \<Rightarrow> case_id \<Rightarrow> dg_case option" where
  "getCaseByID ctx iCaseID = storeFind (caseObjects ctx) iCaseID"

definition collectionCount :: "data_context \<Rightarrow> nat" where
  "collectionCount ctx = length (collections ctx)"

text \<open>
  The lookups of collections return the client as its ID, \<open>None\<close> for \<open>null\<close> or
  \<open>undefined\<close>.
\<close>

definition getCollectionByID :: "data_context \<Rightarrow> coll_id \<Rightarrow> coll_id option" where
  "getCollectionByID ctx iCollectionID =
     (case collectionClients ctx iCollectionID of
        None \<Rightarrow> None
      | Some cl \<Rightarrow> Some iCollectionID)"

definition getCollectionAtIndex :: "data_context \<Rightarrow> nat \<Rightarrow> coll_id option" where
  "getCollectionAtIndex ctx iIndex =
     (if iIndex < collectionCount ctx then getCollectionByID ctx (collections ctx ! iIndex)
      else None)"

definition childCollection :: "data_context \<Rightarrow> coll_id option" where
  "childCollection ctx =
     (if collectionCount ctx \<noteq> 0 then getCollectionAtIndex ctx (collectionCount ctx - 1)
      else None)"

text \<open>
  \<open>getCollectionByName\<close>: the first collection of that name, in the order of
  \<open>collections\<close>. The name of a collection is held by its client here, so a collection
  without a client has no name to match.
\<close>

definition getCollectionByName :: "data_context \<Rightarrow> string \<Rightarrow> coll_id option" where
  "getCollectionByName ctx iName =
     List.find (\<lambda>i. case collectionClients ctx i of
                       None \<Rightarrow> False
                     | Some c \<Rightarrow> name c = iName)
       (collections ctx)"

definition getCollectionForCase :: "data_context \<Rightarrow> dg_case \<Rightarrow> coll_id option" where
  "getCollectionForCase ctx iCase = getCollectionByID ctx (collection iCase)"

text \<open>
  Modelled from the spec: \<open>DG.Case\<close> is not among the sources. A case maps attribute
  IDs to values; \<open>getValue\<close> reads the map, \<open>undefined\<close> where the case has no value,
  and \<open>setValue\<close> writes it.
\<close>

definition getValue :: "dg_case \<Rightarrow> attr_id \<Rightarrow> cell" where
  "getValue c attributeID =
     (case map_of (valuesMap c) attributeID of None \<Rightarrow> UndefinedV | Some v \<Rightarrow> v)"

text \<open>
  The values map is a JavaScript object keyed by attribute IDs: its properties enumerate
  in ascending order of the IDs, which is the order the list keeps.
\<close>

fun putProperty :: "nat \<Rightarrow> 'a \<Rightarrow> (nat \<times> 'a) list \<Rightarrow> (nat \<times> 'a) list" where
  "putProperty k v [] = [(k, v)]"
| "putProperty k v ((k', v') # m) =
     (if k = k' then (k', v) # m
      else if k < k' then (k, v) # (k', v') # m
      else (k', v') # putProperty k v m)"

definition setValue :: "attr_id \<Rightarrow> cell \<Rightarrow> dg_case \<Rightarrow> dg_case" where
  "setValue attributeID v c = c\<lparr>valuesMap := putProperty attributeID v (valuesMap c)\<rparr>"

text \<open>
  Modelled from the spec: \<open>DG.CollectionClient\<close> and \<open>DG.Collection\<close> are not among
  the sources. \<open>setCaseValuesFromArray\<close> sets the values of a case positionally, the
  \<open>i\<close>-th value for the \<open>i\<close>-th attribute of the collection.
\<close>

definition setCaseValuesFromArray ::
  "coll_id \<Rightarrow> case_id \<Rightarrow> cell list \<Rightarrow> data_context \<Rightarrow> data_context" where
  "setCaseValuesFromArray cid iCase iValues ctx =
     (case (collectionClients ctx cid, caseObjects ctx iCase) of
        (Some cl, Some c) \<Rightarrow>
          ctx\<lparr>caseObjects := (caseObjects ctx)
                 (iCase \<mapsto> fold (\<lambda>(a, v). setValue a v) (zip (attributeIDs cl) iValues) c)\<rparr>
      | _ \<Rightarrow> ctx)"

text \<open>
  Modelled from the spec: \<open>createCase\<close> of a collection creates a case with a fresh
  ID in that collection, at the position \<open>index\<close> of the collection's cases when the
  properties give one (within the list) and at the end otherwise, and links it to the
  parent that the properties name: the case becomes the last child of that parent.
\<close>

definition insertAt :: "nat option \<Rightarrow> 'a \<Rightarrow> 'a list \<Rightarrow> 'a list" where
  "insertAt i x xs =
     (case i of
        Some k \<Rightarrow> if k \<le> length xs then take k xs @ [x] @ drop k xs else xs @ [x]
      | None \<Rightarrow> xs @ [x])"

definition parentOf :: "parent_ref \<Rightarrow> case_id option" where
  "parentOf r = (case r of ParentID p \<Rightarrow> Some p | ParentCase p \<Rightarrow> Some p | _ \<Rightarrow> None)"

definition addChild :: "case_id option \<Rightarrow> case_id \<Rightarrow> (case_id \<rightharpoonup> dg_case) \<Rightarrow> (case_id \<rightharpoonup> dg_case)" where
  "addChild p newID objs =
     (case p of
        None \<Rightarrow> objs
      | Some pid \<Rightarrow>
          (case objs pid of
             None \<Rightarrow> objs
           | Some pc \<Rightarrow> objs(pid \<mapsto> pc\<lparr>children := children pc @ [newID]\<rparr>)))"

definition createCase :: "coll_id \<Rightarrow> case_properties \<Rightarrow> data_context \<Rightarrow> case_id \<times> data_context" where
  "createCase cid props ctx =
     (let newID = nextCaseID ctx;
          newCase = \<lparr>collection = cid, parent = parentOf (parentRef props), children = [],
                     valuesMap = [], isDestroyed = False\<rparr>;
          objs = addChild (parentOf (parentRef props)) newID ((caseObjects ctx)(newID \<mapsto> newCase));
          cls = (case collectionClients ctx cid of
                   None \<Rightarrow> collectionClients ctx
                 | Some cl \<Rightarrow> (collectionClients ctx)
                     (cid \<mapsto> cl\<lparr>casesController := insertAt (index props) newID (casesController cl)\<rparr>))
      in (newID, ctx\<lparr>caseObjects := objs, collectionClients := cls, nextCaseID := Suc newID\<rparr>))"

subsection \<open>\<open>doCreateCases\<close>\<close>

text \<open>\<open>SC.none\<close>: the value is \<open>null\<close> or \<open>undefined\<close>.\<close>

definition isNone :: "cell \<Rightarrow> bool" where
  "isNone v = (v = NullV \<or> v = UndefinedV)"

text \<open>
  \<open>Array.prototype.concat\<close> with one argument: the elements of an array argument are
  appended, any other argument is appended as it is.
\<close>

fun concatCell :: "cell list \<Rightarrow> cell \<Rightarrow> cell list" where
  "concatCell xs (ArrayV ys) = xs @ ys"
| "concatCell xs v = xs @ [v]"

text \<open>
  \<open>validateParent\<close>: the parent collection's ID is tested for truth, so that 0 counts
  as no parent collection. The warning of the log is not modelled.
\<close>

definition validateParent :: "data_context \<Rightarrow> collection_client \<Rightarrow> parent_ref \<Rightarrow> bool" where
  "validateParent ctx cl parentKey =
     (case parentCollectionID cl of
        None \<Rightarrow> True
      | Some parentCollID \<Rightarrow>
          if parentCollID \<noteq> 0 then
            (case parentKey of
               ParentID k \<Rightarrow> getCaseByID ctx k \<noteq> None
             | _ \<Rightarrow> False)
          else True)"

text \<open>
  \<open>createOneCase\<close>, on the result's \<open>success\<close> and \<open>caseIDs\<close> and the context.
\<close>

definition createOneCase ::
  "coll_id \<Rightarrow> case_properties \<Rightarrow> cell list \<Rightarrow> cell \<Rightarrow> (bool \<times> case_id list) \<times> data_context
     \<Rightarrow> (bool \<times> case_id list) \<times> data_context" where
  "createOneCase coll props parentValues iValues st =
     (case st of ((ok, created), ctx) \<Rightarrow>
        (case createCase coll props ctx of (newCase, ctx1) \<Rightarrow>
           ((True, created @ [newCase]),
            (if \<not> isNone iValues
             then setCaseValuesFromArray coll newCase (concatCell parentValues iValues) ctx1
             else ctx1))))"

text \<open>
  The parent's values, when \<open>properties.parent\<close> is not an object: the values of the
  parent case for the attribute IDs of the parent case's collection, if the parent ID is
  true (not 0) and the parent is valid. \<open>None\<close>: the parent ID does not resolve and the
  code reads a property of \<open>undefined\<close>.
\<close>

definition parentValuesOf :: "data_context \<Rightarrow> parent_ref \<Rightarrow> bool \<Rightarrow> cell list option" where
  "parentValuesOf ctx r parentIsValid =
     (case r of
        ParentID k \<Rightarrow>
          if k \<noteq> 0 \<and> parentIsValid then
            (case getCaseByID ctx k of
               None \<Rightarrow> None
             | Some parentCase \<Rightarrow>
                 (case collectionClients ctx (collection parentCase) of
                    None \<Rightarrow> None
                  | Some pcl \<Rightarrow> Some (map (getValue parentCase) (attributeIDs pcl))))
          else Some []
      | _ \<Rightarrow> Some [])"

definition isObject :: "parent_ref \<Rightarrow> bool" where
  "isObject r = (case r of ParentCase _ \<Rightarrow> True | ParentNull \<Rightarrow> True | _ \<Rightarrow> False)"

text \<open>
  The change object after the first statements of \<open>doCreateCases\<close>: an absent (or
  empty) \<open>collection\<close> becomes the child collection, absent \<open>properties\<close> become
  the empty object.
\<close>

definition emptyProperties :: case_properties where
  "emptyProperties = \<lparr>parentRef = ParentUndefined, index = None\<rparr>"

definition createCasesDefaults :: "change \<Rightarrow> data_context \<Rightarrow> change" where
  "createCasesDefaults iChange ctx =
     (let iChange1 =
            (if targetCollection iChange = None \<or> targetCollection iChange = Some (CollectionName [])
             then iChange\<lparr>targetCollection := map_option CollectionClient (childCollection ctx)\<rparr>
             else iChange)
      in if properties iChange1 = None then iChange1\<lparr>properties := Some emptyProperties\<rparr>
         else iChange1)"

definition propertiesOf :: "change \<Rightarrow> case_properties" where
  "propertiesOf iChange = (case properties iChange of Some pr \<Rightarrow> pr | None \<Rightarrow> emptyProperties)"

definition resolveCollection :: "data_context \<Rightarrow> collection_ref option \<Rightarrow> coll_id option" where
  "resolveCollection ctx r =
     (case r of
        Some (CollectionName n) \<Rightarrow> getCollectionByName ctx n
      | Some (CollectionClient c) \<Rightarrow> Some c
      | None \<Rightarrow> None)"

text \<open>
  The block under \<open>typeof iChange.properties.parent !== 'object'\<close>: it gives
  \<open>parentIsValid\<close> and \<open>parentValues\<close>. \<open>None\<close>: the block throws, because
  there is no collection to validate against or because the parent ID does not resolve.
\<close>

definition checkParent ::
  "data_context \<Rightarrow> collection_client option \<Rightarrow> parent_ref \<Rightarrow> (bool \<times> cell list) option" where
  "checkParent ctx client r =
     (if isObject r then Some (True, [])
      else
        (case client of
           None \<Rightarrow> None
         | Some cl \<Rightarrow>
             map_option (Pair (validateParent ctx cl r))
               (parentValuesOf ctx r (validateParent ctx cl r))))"

text \<open>
  The block under \<open>if( collection && parentIsValid)\<close>: one case per element of
  \<open>iChange.values\<close>, or one case without values when that is absent.
\<close>

definition createAll ::
  "coll_id \<Rightarrow> case_properties \<Rightarrow> cell list \<Rightarrow> cell list option \<Rightarrow> data_context
     \<Rightarrow> change_result \<times> data_context" where
  "createAll c props parentValues vals ctx =
     (let valuesArrays = (case vals of Some vs \<Rightarrow> vs | None \<Rightarrow> [ArrayV []]);
          r = fold (createOneCase c props parentValues) valuesArrays ((False, []), ctx)
      in (\<lparr>success = fst (fst r), caseIDs = Some (snd (fst r)),
            caseID = (case snd (fst r) of [] \<Rightarrow> None | i # _ \<Rightarrow> Some i)\<rparr>,
          snd r))"

definition rejected :: change_result where
  "rejected = \<lparr>success = False, caseIDs = Some [], caseID = None\<rparr>"

text \<open>
  \<open>doCreateCases\<close> returns the result, the change object as it has rewritten it, and
  the context. \<open>None\<close>: the call throws. A collection reference that names no client
  of the context counts as no collection.
\<close>

definition doCreateCases ::
  "change \<Rightarrow> data_context \<Rightarrow> (change_result \<times> change \<times> data_context) option" where
  "doCreateCases iChange ctx =
     (let iChange2 = createCasesDefaults iChange ctx;
          coll = resolveCollection ctx (targetCollection iChange2);
          props = propertiesOf iChange2;
          client = (case coll of None \<Rightarrow> None | Some c \<Rightarrow> collectionClients ctx c)
      in
        (case checkParent ctx client (parentRef props) of
           None \<Rightarrow> None
         | Some (parentIsValid, parentValues) \<Rightarrow>
             (case (coll, client) of
                (Some c, Some cl) \<Rightarrow>
                  if parentIsValid then
                    (case createAll c props parentValues (cellValues iChange2) ctx of
                       (res, ctx1) \<Rightarrow> Some (res, iChange2, ctx1))
                  else Some (rejected, iChange2, ctx)
              | _ \<Rightarrow> Some (rejected, iChange2, ctx))))"

subsection \<open>\<open>doSelectCases\<close>\<close>

text \<open>
  Modelled from the spec: the cases controller of a collection and its selection support
  are not among the sources. \<open>selectObjects\<close> replaces the selection set by the given
  cases, or adds them to it when it extends; \<open>deselectObjects\<close> removes the given cases
  from it; \<open>selectObject\<close> without an argument clears it.
\<close>

definition selectObjects :: "case_id list \<Rightarrow> bool \<Rightarrow> collection_client \<Rightarrow> collection_client" where
  "selectObjects tCases ext cl =
     cl\<lparr>selection := (if ext then selection cl |\<union>| fset_of_list tCases else fset_of_list tCases)\<rparr>"

definition deselectObjects :: "case_id list \<Rightarrow> collection_client \<Rightarrow> collection_client" where
  "deselectObjects tCases cl = cl\<lparr>selection := selection cl |-| fset_of_list tCases\<rparr>"

definition selectObject_none :: "collection_client \<Rightarrow> collection_client" where
  "selectObject_none cl = cl\<lparr>selection := {||}\<rparr>"

text \<open>
  The local variables of \<open>doSelectCases\<close> that its inner functions write.
  \<open>tCollectionExtendMap\<close> is given by the set of its keys (every entry is \<open>true\<close>).
  \<open>tCollectionSelectionMap\<close> is an object keyed by collection IDs, whose properties
  enumerate in ascending order of the IDs; an entry holds the cases of that collection.
\<close>

record select_state =
  tCollectionExtendMap :: "coll_id set"
  tCollectionSelectionMap :: "(coll_id \<times> case_id list) list"
  isSelectionChanged :: bool

definition extendForCollection :: "bool \<Rightarrow> coll_id \<Rightarrow> coll_id set \<Rightarrow> bool \<times> coll_id set" where
  "extendForCollection tExtend collectionID m =
     (if collectionID \<notin> m then (tExtend, insert collectionID m) else (True, m))"

definition addSelectionToCollectionMap ::
  "coll_id \<Rightarrow> case_id \<Rightarrow> (coll_id \<times> case_id list) list \<Rightarrow> (coll_id \<times> case_id list) list" where
  "addSelectionToCollectionMap collectionID iCase m =
     (case map_of m collectionID of
        None \<Rightarrow> putProperty collectionID [iCase] m
      | Some cs \<Rightarrow> putProperty collectionID (cs @ [iCase]) m)"

text \<open>
  \<open>doSelectByCollection\<close> and \<open>doDeselectByCollection\<close>, one step per entry of the
  selection map. An entry's collection is a client of the context.
\<close>

definition selectByCollection_step ::
  "bool \<Rightarrow> coll_id \<times> case_id list \<Rightarrow> coll_id set \<times> data_context \<Rightarrow> coll_id set \<times> data_context" where
  "selectByCollection_step tExtend e st =
     (case (e, st) of ((cid, tCases), (m, ctx)) \<Rightarrow>
        (case extendForCollection tExtend cid m of (ext, m') \<Rightarrow>
           (m', (case collectionClients ctx cid of
                   None \<Rightarrow> ctx
                 | Some cl \<Rightarrow> ctx\<lparr>collectionClients :=
                                  (collectionClients ctx)(cid \<mapsto> selectObjects tCases ext cl)\<rparr>))))"

definition doSelectByCollection ::
  "bool \<Rightarrow> (coll_id \<times> case_id list) list \<Rightarrow> coll_id set \<times> data_context \<Rightarrow> coll_id set \<times> data_context" where
  "doSelectByCollection tExtend selMap st = fold (selectByCollection_step tExtend) selMap st"

definition deselectByCollection_step :: "coll_id \<times> case_id list \<Rightarrow> data_context \<Rightarrow> data_context" where
  "deselectByCollection_step e ctx =
     (case e of (cid, tCases) \<Rightarrow>
        (case collectionClients ctx cid of
           None \<Rightarrow> ctx
         | Some cl \<Rightarrow> ctx\<lparr>collectionClients :=
                          (collectionClients ctx)(cid \<mapsto> deselectObjects tCases cl)\<rparr>))"

definition doDeselectByCollection ::
  "(coll_id \<times> case_id list) list \<Rightarrow> data_context \<Rightarrow> data_context" where
  "doDeselectByCollection selMap ctx = fold deselectByCollection_step selMap ctx"

text \<open>
  \<open>selectCaseAndChildren\<close> and \<open>deselectCaseAndChildren\<close> differ in their test for a
  changed selection only, so one function is written for both, over the list of cases
  that \<open>forEach\<close> hands to them. The fuel bounds the depth of the recursion into the
  children; \<open>None\<close> is a call that runs out of it, or that meets a reference to no case
  object. \<open>getCollectionForCase\<close> is inlined: the client under the ID of the case's
  collection, if any.
\<close>

fun caseAndChildren ::
  "(case_id fset \<Rightarrow> case_id \<Rightarrow> bool) \<Rightarrow> nat \<Rightarrow> data_context \<Rightarrow> case_id list \<Rightarrow> select_state
     \<Rightarrow> select_state option" where
  "caseAndChildren changed fuel ctx [] st = Some st"
| "caseAndChildren changed 0 ctx (iCase # rest) st = None"
| "caseAndChildren changed (Suc fuel) ctx (iCase # rest) st =
     (case caseObjects ctx iCase of
        None \<Rightarrow> None
      | Some c \<Rightarrow>
          (case collectionClients ctx (collection c) of
             None \<Rightarrow> caseAndChildren changed (Suc fuel) ctx rest st
           | Some cl \<Rightarrow>
               (let st1 = (if changed (selection cl) iCase
                           then st\<lparr>isSelectionChanged := True\<rparr> else st);
                    st2 = st1\<lparr>tCollectionSelectionMap :=
                            addSelectionToCollectionMap (collection c) iCase
                              (tCollectionSelectionMap st1)\<rparr>
                in case caseAndChildren changed fuel ctx (children c) st2 of
                     None \<Rightarrow> None
                   | Some st3 \<Rightarrow> caseAndChildren changed (Suc fuel) ctx rest st3)))"

definition selectionChanges :: "case_id fset \<Rightarrow> case_id \<Rightarrow> bool" where
  "selectionChanges tSelection iCase = (iCase |\<notin>| tSelection \<or> fcard tSelection > 1)"

definition deselectionChanges :: "case_id fset \<Rightarrow> case_id \<Rightarrow> bool" where
  "deselectionChanges tSelection iCase = (iCase |\<in>| tSelection)"

definition selectCaseAndChildren ::
  "nat \<Rightarrow> data_context \<Rightarrow> case_id list \<Rightarrow> select_state \<Rightarrow> select_state option" where
  "selectCaseAndChildren = caseAndChildren selectionChanges"

definition deselectCaseAndChildren ::
  "nat \<Rightarrow> data_context \<Rightarrow> case_id list \<Rightarrow> select_state \<Rightarrow> select_state option" where
  "deselectCaseAndChildren = caseAndChildren deselectionChanges"

text \<open>
  The last loop of \<open>doSelectCases\<close>, over the collections of the context that have a
  client: a collection whose ID is true (not 0) and for which \<open>extendForCollection\<close>
  answers \<open>false\<close> has its selection cleared.
\<close>

definition deselectAll_step :: "bool \<Rightarrow> coll_id \<Rightarrow> coll_id set \<times> data_context \<Rightarrow> coll_id set \<times> data_context" where
  "deselectAll_step tExtend cid st =
     (case st of (m, ctx) \<Rightarrow>
        (case collectionClients ctx cid of
           None \<Rightarrow> (m, ctx)
         | Some cl \<Rightarrow>
             if cid \<noteq> 0 then
               (case extendForCollection tExtend cid m of (ext, m') \<Rightarrow>
                  (m', if \<not> ext
                       then ctx\<lparr>collectionClients :=
                                  (collectionClients ctx)(cid \<mapsto> selectObject_none cl)\<rparr>
                       else ctx))
             else (m, ctx)))"

text \<open>
  The body of \<open>if( tCases && tFunction)\<close>: the cases and their children are visited,
  then the selection map is handed to the collections.
\<close>

definition applyToCases ::
  "nat \<Rightarrow> bool \<Rightarrow> bool \<Rightarrow> case_id list \<Rightarrow> data_context \<Rightarrow> (select_state \<times> data_context) option" where
  "applyToCases fuel sel tExtend tCases ctx =
     (let st0 = \<lparr>tCollectionExtendMap = {}, tCollectionSelectionMap = [],
                 isSelectionChanged = False\<rparr>
      in if sel then
           (case selectCaseAndChildren fuel ctx tCases st0 of
              None \<Rightarrow> None
            | Some st1 \<Rightarrow>
                (case doSelectByCollection tExtend (tCollectionSelectionMap st1)
                        (tCollectionExtendMap st1, ctx) of
                   (m, ctx1) \<Rightarrow> Some (st1\<lparr>tCollectionExtendMap := m\<rparr>, ctx1)))
         else
           (case deselectCaseAndChildren fuel ctx tCases st0 of
              None \<Rightarrow> None
            | Some st1 \<Rightarrow> Some (st1, doDeselectByCollection (tCollectionSelectionMap st1) ctx)))"

text \<open>The body of \<open>if( isSelectionChanged)\<close>.\<close>

definition deselectOthers :: "bool \<Rightarrow> coll_id set \<Rightarrow> data_context \<Rightarrow> data_context" where
  "deselectOthers tExtend m ctx =
     (snd (fold (deselectAll_step tExtend) (collections ctx) (m, ctx)))
       \<lparr>selectionChangeCount := Suc (selectionChangeCount ctx)\<rparr>"

text \<open>
  \<open>tCollection\<close> of \<open>doSelectCases\<close>: \<open>iChange.collection\<close>, or the child
  collection when that is absent or the empty string. \<open>None\<close>: it is a name, of which
  the code would read a cases controller.
\<close>

definition selectTarget :: "change \<Rightarrow> data_context \<Rightarrow> coll_id option option" where
  "selectTarget iChange ctx =
     (case targetCollection iChange of
        Some (CollectionClient c) \<Rightarrow> Some (Some c)
      | Some (CollectionName n) \<Rightarrow> if n = [] then Some (childCollection ctx) else None
      | None \<Rightarrow> Some (childCollection ctx))"

text \<open>
  \<open>doSelectCases\<close>. \<open>None\<close>: the call does not return (the recursion above has no
  result, or there is no \<open>tCollection\<close> to read).
\<close>

definition doSelectCases ::
  "nat \<Rightarrow> change \<Rightarrow> data_context \<Rightarrow> (change_result \<times> change \<times> data_context) option" where
  "doSelectCases fuel iChange ctx =
     (case selectTarget iChange ctx of
        None \<Rightarrow> None
      | Some tCollection \<Rightarrow>
          (let tController = (case tCollection of
                                None \<Rightarrow> None
                              | Some c \<Rightarrow> map_option casesController (collectionClients ctx c));
               tExtend = extendFlag iChange;
               tCases = (case cases iChange of Some cs \<Rightarrow> Some cs | None \<Rightarrow> tController)
           in
             (case (case tCases of
                      None \<Rightarrow> Some (\<lparr>tCollectionExtendMap = {}, tCollectionSelectionMap = [],
                                      isSelectionChanged = False\<rparr>, ctx)
                    | Some cs \<Rightarrow> applyToCases fuel (select iChange) tExtend cs ctx) of
                None \<Rightarrow> None
              | Some (st, ctx1) \<Rightarrow>
                  Some (\<lparr>success = True, caseIDs = None, caseID = None\<rparr>, iChange,
                        if isSelectionChanged st
                        then deselectOthers tExtend (tCollectionExtendMap st) ctx1
                        else ctx1))))"

subsection \<open>\<open>doDeleteCases\<close>\<close>

text \<open>
  Modelled from the spec: \<open>deleteCase\<close> of a collection destroys the case. The case
  object is marked destroyed and loses its values map, it is removed at once from the
  list of children of its parent, and it leaves the cases of its collection.
\<close>

definition removeChild :: "case_id option \<Rightarrow> case_id \<Rightarrow> (case_id \<rightharpoonup> dg_case) \<Rightarrow> (case_id \<rightharpoonup> dg_case)" where
  "removeChild p iCase objs =
     (case p of
        None \<Rightarrow> objs
      | Some pid \<Rightarrow>
          (case objs pid of
             None \<Rightarrow> objs
           | Some pc \<Rightarrow> objs(pid \<mapsto> pc\<lparr>children := remove1 iCase (children pc)\<rparr>)))"

definition deleteCase :: "case_id \<Rightarrow> data_context \<Rightarrow> data_context" where
  "deleteCase iCase ctx =
     (case caseObjects ctx iCase of
        None \<Rightarrow> ctx
      | Some c \<Rightarrow>
          ctx\<lparr>caseObjects :=
                 removeChild (parent c) iCase
                   ((caseObjects ctx)(iCase \<mapsto> c\<lparr>isDestroyed := True, valuesMap := []\<rparr>)),
               collectionClients :=
                 (case collectionClients ctx (collection c) of
                    None \<Rightarrow> collectionClients ctx
                  | Some cl \<Rightarrow> (collectionClients ctx)
                      (collection c \<mapsto> cl\<lparr>casesController := remove1 iCase (casesController cl)\<rparr>))\<rparr>)"

text \<open>
  \<open>caseIDToIndexMap\<close> of a collection: the index of a case among the cases of the
  collection, \<open>undefined\<close> for a case that is not among them.
\<close>

fun indexOf :: "'a \<Rightarrow> 'a list \<Rightarrow> nat option" where
  "indexOf x [] = None"
| "indexOf x (y # ys) = (if x = y then Some 0 else map_option Suc (indexOf x ys))"

definition caseIDToIndexMap :: "data_context \<Rightarrow> coll_id \<Rightarrow> case_id \<Rightarrow> nat option" where
  "caseIDToIndexMap ctx cid iCase =
     (case collectionClients ctx cid of
        None \<Rightarrow> None
      | Some cl \<Rightarrow> indexOf iCase (casesController cl))"

text \<open>
  What the deletion writes besides the context: \<open>iChange.ids\<close>, the keys of
  \<open>iChange.collectionIDs\<close>, and the local \<open>deletedCases\<close>.
\<close>

record delete_state =
  delContext :: data_context
  delIds :: "case_id list"
  delCollectionIDs :: "coll_id list"
  deletedCases :: "deleted_case list"

text \<open>
  \<open>deleteCaseAndChildren\<close>, with the loop over the children as \<open>deleteChildren\<close>:
  its counter is \<open>ix + 1\<close>. The loop reads \<open>tChildren[ix]\<close> from the list of children
  as it is at that moment, since the deletions remove from that list. The fuel bounds
  the depth of the recursion. \<open>None\<close>: the call does not return (out of fuel, or it
  reads a property of \<open>undefined\<close> or \<open>null\<close>: a reference to no case object,
  an index beyond the list of children, a case whose collection has no client).
\<close>

fun deleteCaseAndChildren :: "nat \<Rightarrow> case_id \<Rightarrow> delete_state \<Rightarrow> delete_state option"
  and deleteChildren :: "nat \<Rightarrow> case_id \<Rightarrow> nat \<Rightarrow> delete_state \<Rightarrow> delete_state option" where
  "deleteCaseAndChildren 0 iCase st = None"
| "deleteCaseAndChildren (Suc fuel) iCase st =
     (case caseObjects (delContext st) iCase of
        None \<Rightarrow> None
      | Some c \<Rightarrow>
          if isDestroyed c then Some st
          else
            (case deleteChildren fuel iCase (length (children c)) st of
               None \<Rightarrow> None
             | Some st1 \<Rightarrow>
                 (case caseObjects (delContext st1) iCase of
                    None \<Rightarrow> None
                  | Some c1 \<Rightarrow>
                      (case getCollectionForCase (delContext st1) c1 of
                         None \<Rightarrow> None
                       | Some tCollection \<Rightarrow>
                           Some (st1\<lparr>delIds := delIds st1 @ [iCase],
                                     deletedCases := deletedCases st1 @
                                       [\<lparr>oldCase = iCase, oldValues = valuesMap c1,
                                         oldIndex = caseIDToIndexMap (delContext st1)
                                                      (collection c1) iCase\<rparr>],
                                     delContext := deleteCase iCase (delContext st1),
                                     delCollectionIDs :=
                                       (if tCollection \<in> set (delCollectionIDs st1)
                                        then delCollectionIDs st1
                                        else delCollectionIDs st1 @ [tCollection])\<rparr>)))))"
| "deleteChildren fuel iCase 0 st = Some st"
| "deleteChildren fuel iCase (Suc ix) st =
     (case caseObjects (delContext st) iCase of
        None \<Rightarrow> None
      | Some c \<Rightarrow>
          if ix < length (children c) then
            (case deleteCaseAndChildren fuel (children c ! ix) st of
               None \<Rightarrow> None
             | Some st1 \<Rightarrow> deleteChildren fuel iCase ix st1)
          else None)"

fun deleteEach :: "nat \<Rightarrow> case_id list \<Rightarrow> delete_state \<Rightarrow> delete_state option" where
  "deleteEach fuel [] st = Some st"
| "deleteEach fuel (iCase # rest) st =
     (case deleteCaseAndChildren fuel iCase st of
        None \<Rightarrow> None
      | Some st1 \<Rightarrow> deleteEach fuel rest st1)"

text \<open>
  \<open>doDeleteCases\<close>. Modelled from the spec: \<open>DG.UndoHistory\<close> and \<open>DG.Command\<close>
  are not among the sources; \<open>execute\<close> runs the command's \<open>execute\<close> at once and
  pushes the command on the undo stack. \<open>didDeleteCases\<close> only notifies. \<open>None\<close>:
  the call does not return (the change names no cases, or the deletion has no result).
\<close>

definition doDeleteCases ::
  "nat \<Rightarrow> change \<Rightarrow> data_context \<Rightarrow> (change_result \<times> change \<times> data_context) option" where
  "doDeleteCases fuel iChange ctx =
     (case cases iChange of
        None \<Rightarrow> None
      | Some cs \<Rightarrow>
          (case deleteEach fuel cs
                  \<lparr>delContext = ctx, delIds = [], delCollectionIDs = [], deletedCases = []\<rparr> of
             None \<Rightarrow> None
           | Some st \<Rightarrow>
               (let iChange1 = iChange\<lparr>ids := delIds st, collectionIDs := delCollectionIDs st\<rparr>;
                    cmd = \<lparr>commandName = ''data.deleteCases'', commandChange = iChange1,
                           undoData = deletedCases st, oldCaseToNewCaseMap = []\<rparr>;
                    ctx1 = delContext st
                in Some (\<lparr>success = True, caseIDs = None, caseID = None\<rparr>, iChange1,
                         ctx1\<lparr>undoStack := cmd # undoStack ctx1,
                              dirtyCount := Suc (dirtyCount ctx1)\<rparr>))))"

subsection \<open>\<open>performChange\<close> and \<open>applyChange\<close>\<close>

text \<open>
  \<open>performChange\<close>. The handlers of the operations on collections and attributes and of
  \<open>updateCases\<close> are the parameter \<open>otherHandlers\<close>; the result of a handler may be
  \<open>undefined\<close> (\<open>doResetCollections\<close> returns nothing). \<open>DG.dirtyCurrentDocument\<close>
  is counted.
\<close>

type_synonym handlers = "change \<Rightarrow> data_context \<Rightarrow> (change_result option \<times> change \<times> data_context) option"

definition withResult ::
  "(change_result \<times> change \<times> data_context) option
     \<Rightarrow> (change_result option \<times> change \<times> data_context) option" where
  "withResult r = map_option (\<lambda>(res, ch, ctx). (Some res, ch, ctx)) r"

text \<open>
  The \<open>switch\<close> of \<open>performChange\<close>, with the value it leaves in
  \<open>shouldDirtyDoc\<close>. \<open>createCase\<close> wraps the values of the change into an array of
  one element; the \<open>caseID\<close> it then copies from \<open>caseIDs\<close> is the one that
  \<open>doCreateCases\<close> has set.
\<close>

definition dispatch ::
  "handlers \<Rightarrow> nat \<Rightarrow> change \<Rightarrow> data_context
     \<Rightarrow> (bool \<times> change_result option \<times> change \<times> data_context) option" where
  "dispatch otherHandlers fuel iChange ctx =
     (case operation iChange of
        CreateCase \<Rightarrow>
          map_option (Pair True)
            (withResult (doCreateCases
               (iChange\<lparr>cellValues :=
                  Some [ArrayV (case cellValues iChange of Some vs \<Rightarrow> vs | None \<Rightarrow> [])]\<rparr>)
               ctx))
      | CreateCases \<Rightarrow> map_option (Pair True) (withResult (doCreateCases iChange ctx))
      | DeleteCases \<Rightarrow> map_option (Pair False) (withResult (doDeleteCases fuel iChange ctx))
      | SelectCases \<Rightarrow> map_option (Pair False) (withResult (doSelectCases fuel iChange ctx))
      | UnknownOperation _ \<Rightarrow>
          Some (True, Some \<lparr>success = False, caseIDs = None, caseID = None\<rparr>, iChange, ctx)
      | _ \<Rightarrow> map_option (Pair True) (otherHandlers iChange ctx))"

definition performChange ::
  "handlers \<Rightarrow> nat \<Rightarrow> change \<Rightarrow> data_context
     \<Rightarrow> (change_result option \<times> change \<times> data_context) option" where
  "performChange otherHandlers fuel iChange ctx =
     (if isComplete iChange
      then Some (Some \<lparr>success = True, caseIDs = None, caseID = None\<rparr>, iChange, ctx)
      else
        (case dispatch otherHandlers fuel iChange ctx of
           None \<Rightarrow> None
         | Some (shouldDirtyDoc, res, iChange1, ctx1) \<Rightarrow>
             Some (res, iChange1,
                   if shouldDirtyDoc then ctx1\<lparr>dirtyCount := Suc (dirtyCount ctx1)\<rparr> else ctx1)))"

text \<open>
  \<open>applyChange\<close> returns the result and the context. The closure it hands to
  \<open>invokeLast\<close> is queued; \<open>endRunLoop\<close> runs the queued closures at the end of the
  run loop: each sets \<open>changeCount\<close> and \<open>_prevChangeCount\<close> to \<open>_changeCount\<close>.
\<close>

definition applyChange ::
  "handlers \<Rightarrow> nat \<Rightarrow> change \<Rightarrow> data_context \<Rightarrow> (change_result option \<times> data_context) option" where
  "applyChange otherHandlers fuel iChange ctx =
     (case performChange otherHandlers fuel iChange ctx of
        None \<Rightarrow> None
      | Some (res, iChange1, ctx1) \<Rightarrow>
          Some (res,
                ctx1\<lparr>changes := changes ctx1 @ [iChange1\<lparr>result := res\<rparr>],
                     priv_changeCount := Suc (priv_changeCount ctx1),
                     invokeLastQueue := Suc (invokeLastQueue ctx1)\<rparr>))"

definition endRunLoop :: "data_context \<Rightarrow> data_context" where
  "endRunLoop ctx =
     (if invokeLastQueue ctx = 0 then ctx
      else ctx\<lparr>changeCount := priv_changeCount ctx,
               priv_prevChangeCount := priv_changeCount ctx,
               invokeLastQueue := 0\<rparr>)"

text \<open>A sequence of calls of \<open>applyChange\<close>, one after the other.\<close>

fun applyChanges :: "handlers \<Rightarrow> nat \<Rightarrow> change list \<Rightarrow> data_context \<Rightarrow> data_context option" where
  "applyChanges otherHandlers fuel [] ctx = Some ctx"
| "applyChanges otherHandlers fuel (iChange # rest) ctx =
     (case applyChange otherHandlers fuel iChange ctx of
        None \<Rightarrow> None
      | Some (res, ctx1) \<Rightarrow> applyChanges otherHandlers fuel rest ctx1)"

text \<open>
  The fields of the context that hold the change log and its counters, with the queue of
  postponed notifications.
\<close>

definition logFields :: "data_context \<Rightarrow> change list \<times> nat \<times> nat \<times> nat \<times> nat" where
  "logFields ctx =
     (changes ctx, priv_changeCount ctx, changeCount ctx, priv_prevChangeCount ctx, invokeLastQueue ctx)"

subsection \<open>The \<open>undo\<close> of \<open>doDeleteCases\<close>\<close>

text \<open>
  Modelled from the spec: \<open>oldCaseToNewCaseMap\<close> is an object keyed by the old case
  (\<open>oldCase.toString()\<close>), and \<open>DG.Case\<close> is not among the sources; the key of the
  model is the ID of the old case, the newest entry first. \<open>newCaseFor\<close> is the
  statement \<open>if (parent && oldCaseToNewCaseMap[parent]) parent = oldCaseToNewCaseMap[parent]\<close>
  on the parent that is not \<open>null\<close>.
\<close>

definition newCaseFor :: "(case_id \<times> case_id) list \<Rightarrow> case_id \<Rightarrow> case_id" where
  "newCaseFor newCases i = (case map_of newCases i of Some n \<Rightarrow> n | None \<Rightarrow> i)"

text \<open>
  The change object that the \<open>undo\<close> builds for one deleted case. \<open>parent\<close> is a
  case object or \<open>null\<close>, never an ID; the \<open>values\<close> are the values of the old
  values map in the order in which its keys enumerate (\<open>DG.ObjectMap.forEach\<close>); the
  \<open>collection\<close> of the properties is not read by the model of \<open>createCase\<close>.
\<close>

definition undoChange :: "coll_id option \<Rightarrow> case_id option \<Rightarrow> deleted_case \<Rightarrow> change" where
  "undoChange oldCollection parentCase d =
     \<lparr>operation = CreateCase, isComplete = False,
      targetCollection = map_option CollectionClient oldCollection, cases = None,
      select = False, extendFlag = False,
      properties = Some \<lparr>parentRef = (case parentCase of None \<Rightarrow> ParentNull | Some p \<Rightarrow> ParentCase p),
                          index = oldIndex d\<rparr>,
      cellValues = Some (map snd (oldValues d)), ids = [], collectionIDs = [], result = None\<rparr>"

text \<open>
  \<open>casesRecords.filterProperty("id", result.caseID)\<close> and its first element, if any.
\<close>

definition newCaseOf :: "change_result \<Rightarrow> case_id list \<Rightarrow> case_id option" where
  "newCaseOf r casesRecords =
     (case filter (\<lambda>i. Some i = caseID r) casesRecords of [] \<Rightarrow> None | n # _ \<Rightarrow> Some n)"

text \<open>
  One round of the loop of the \<open>undo\<close>, on the map from old to new cases and the
  context: the old case is re-created through \<open>applyChange\<close>, and the new case is
  recorded for the old one. \<open>None\<close>: the round throws (the old case is no object of
  the store, its collection has no client, or \<open>applyChange\<close> has no result).
\<close>

definition undoOneCase ::
  "handlers \<Rightarrow> nat \<Rightarrow> deleted_case \<Rightarrow> (case_id \<times> case_id) list \<times> data_context
     \<Rightarrow> ((case_id \<times> case_id) list \<times> data_context) option" where
  "undoOneCase otherHandlers fuel d st =
     (case st of (newCases, ctx) \<Rightarrow>
        (case caseObjects ctx (oldCase d) of
           None \<Rightarrow> None
         | Some c \<Rightarrow>
             (let oldCollection = getCollectionForCase ctx c;
                  parentCase = map_option (newCaseFor newCases) (parent c)
              in (case applyChange otherHandlers fuel (undoChange oldCollection parentCase d) ctx of
                    None \<Rightarrow> None
                  | Some (res, ctx1) \<Rightarrow>
                      (case (oldCollection, res) of
                         (Some cid, Some r) \<Rightarrow>
                           (case collectionClients ctx1 cid of
                              None \<Rightarrow> None
                            | Some cl \<Rightarrow>
                                Some ((case newCaseOf r (casesController cl) of
                                         None \<Rightarrow> newCases
                                       | Some n \<Rightarrow> (oldCase d, n) # newCases),
                                      ctx1))
                       | _ \<Rightarrow> None)))))"

text \<open>
  The loop runs from the last deleted case to the first: \<open>undoDeleteCases\<close> hands it
  the undo data reversed. It ends with \<open>DG.dirtyCurrentDocument\<close>.
\<close>

fun undoLoop ::
  "handlers \<Rightarrow> nat \<Rightarrow> deleted_case list \<Rightarrow> (case_id \<times> case_id) list \<times> data_context
     \<Rightarrow> ((case_id \<times> case_id) list \<times> data_context) option" where
  "undoLoop otherHandlers fuel [] st = Some st"
| "undoLoop otherHandlers fuel (d # ds) st =
     (case undoOneCase otherHandlers fuel d st of
        None \<Rightarrow> None
      | Some st1 \<Rightarrow> undoLoop otherHandlers fuel ds st1)"

definition undoDeleteCases ::
  "handlers \<Rightarrow> nat \<Rightarrow> command \<Rightarrow> data_context \<Rightarrow> (command \<times> data_context) option" where
  "undoDeleteCases otherHandlers fuel cmd ctx =
     (case undoLoop otherHandlers fuel (rev (undoData cmd)) (oldCaseToNewCaseMap cmd, ctx) of
        None \<Rightarrow> None
      | Some (newCases, ctx1) \<Rightarrow>
          Some (cmd\<lparr>oldCaseToNewCaseMap := newCases\<rparr>, ctx1\<lparr>dirtyCount := Suc (dirtyCount ctx1)\<rparr>))"

section \<open>The case table's row index (\<open>DG.CaseTableDataManager\<close>)\<close>

text \<open>
  \<open>dataContext\<close> is the manager's \<open>context\<close> and \<open>tableCollection\<close> its
  \<open>collection\<close>. \<open>collapsedNodes\<close> stands for its \<open>model\<close>, the
  \<open>DG.CaseTableModel\<close>; \<open>onRowCountChanged\<close> lists the notifications of that
  event, oldest first, each with its \<open>previous\<close> and \<open>current\<close> arguments.
\<close>

record case_table_data_manager =
  dataContext :: data_context
  tableCollection :: "coll_id option"
  collapsedNodes :: "case_id set"
  suspended :: bool
  refreshNeeded :: bool
  rowCaseMap :: "case_id list"
  onRowCountChanged :: "(nat \<times> nat) list"

text \<open>
  Modelled from the spec: \<open>DG.CaseTableModel\<close> (\<open>isCollapsedNode\<close>, \<open>collapseNode\<close>,
  \<open>expandNode\<close>) is not among the sources. The spec has the table model hold a
  collapsed marker on individual cases; collapsing sets the marker of a case and
  expanding removes it.
\<close>

definition isCollapsedNode :: "case_table_data_manager \<Rightarrow> case_id \<Rightarrow> bool" where
  "isCollapsedNode dm node = (node \<in> collapsedNodes dm)"

definition collapseNode :: "case_table_data_manager \<Rightarrow> case_id \<Rightarrow> case_table_data_manager" where
  "collapseNode dm node = dm\<lparr>collapsedNodes := insert node (collapsedNodes dm)\<rparr>"

definition expandNode :: "case_table_data_manager \<Rightarrow> case_id \<Rightarrow> case_table_data_manager" where
  "expandNode dm node = dm\<lparr>collapsedNodes := collapsedNodes dm - {node}\<rparr>"

definition getLength :: "case_table_data_manager \<Rightarrow> nat" where
  "getLength dm = length (rowCaseMap dm)"

text \<open>\<open>getItem\<close>: a row beyond the end of the array reads as \<open>undefined\<close>.\<close>

definition getItem :: "case_table_data_manager \<Rightarrow> nat \<Rightarrow> case_id option" where
  "getItem dm row = (if row < length (rowCaseMap dm) then Some (rowCaseMap dm ! row) else None)"

text \<open>
  \<open>makeCollections\<close>: the loop climbs the chain of parent collections. The fuel bounds
  the number of iterations; \<open>None\<close> is a loop that has not ended within it. The array
  is built child first and reversed at the end.
\<close>

fun makeCollections_loop ::
  "nat \<Rightarrow> (coll_id \<rightharpoonup> collection_client) \<Rightarrow> coll_id option \<Rightarrow> coll_id list \<Rightarrow> coll_id list option" where
  "makeCollections_loop fuel cl None arr = Some arr"
| "makeCollections_loop 0 cl (Some col) arr = None"
| "makeCollections_loop (Suc fuel) cl (Some col) arr =
     (case cl col of
        None \<Rightarrow> None
      | Some c \<Rightarrow>
          (case parentCollectionID c of
             Some colID \<Rightarrow>
               makeCollections_loop fuel cl (map_option (\<lambda>p. colID) (cl colID)) (arr @ [col])
           | None \<Rightarrow> makeCollections_loop fuel cl None (arr @ [col])))"

definition makeCollections ::
  "nat \<Rightarrow> (coll_id \<rightharpoonup> collection_client) \<Rightarrow> coll_id option \<Rightarrow> coll_id list option" where
  "makeCollections fuel cl iCollection = map_option rev (makeCollections_loop fuel cl iCollection [])"

text \<open>
  \<open>visit\<close>: the rows are appended to \<open>rowCaseIndex\<close> in the order of the visit.
  \<open>n\<close> is \<open>collections.length\<close>. The fuel bounds the depth of the recursion into the
  children; \<open>None\<close> is a visit that has run out of it, or that has met a reference to
  no case object.
\<close>

fun visit ::
  "nat \<Rightarrow> (case_id \<rightharpoonup> dg_case) \<Rightarrow> case_id set \<Rightarrow> nat \<Rightarrow> case_id list \<Rightarrow> nat \<Rightarrow> case_id list
     \<Rightarrow> case_id list option" where
  "visit fuel objs collapsed n [] level rowCaseIndex = Some rowCaseIndex"
| "visit fuel objs collapsed n (node # nodes) level rowCaseIndex =
     (if level = n - 1 then visit fuel objs collapsed n nodes level (rowCaseIndex @ [node])
      else if node \<in> collapsed then visit fuel objs collapsed n nodes level (rowCaseIndex @ [node])
      else
        (case fuel of
           0 \<Rightarrow> None
         | Suc fuel' \<Rightarrow>
             (case objs node of
                None \<Rightarrow> None
              | Some c \<Rightarrow>
                  (case visit fuel' objs collapsed n (children c) (level + 1) rowCaseIndex of
                     None \<Rightarrow> None
                   | Some rows \<Rightarrow> visit fuel objs collapsed n nodes level rows))))"

text \<open>
  The test of \<open>refresh\<close> before it notifies is \<open>rowCaseIndex !== beforeCount\<close>: the
  new array against the old length. Strict inequality of JavaScript holds between any
  array and any number.
\<close>

datatype js_operand = JsArray "case_id list" | JsNumber nat

fun strictNotEqual :: "js_operand \<Rightarrow> js_operand \<Rightarrow> bool" where
  "strictNotEqual (JsNumber a) (JsNumber b) = (a \<noteq> b)"
| "strictNotEqual (JsArray a) (JsNumber b) = True"
| "strictNotEqual (JsNumber a) (JsArray b) = True"
| "strictNotEqual (JsArray a) (JsArray b) = True"

text \<open>
  \<open>refresh\<close>. \<open>None\<close>: the call does not return (no collection to start from, so that
  \<open>collections[0]\<close> is \<open>undefined\<close>, or one of the two loops above has no result).
  Two arrays are always distinct objects at the test, the new one being fresh, which is
  why \<open>strictNotEqual\<close> needs no identity of arrays.
\<close>

definition refresh :: "nat \<Rightarrow> case_table_data_manager \<Rightarrow> case_table_data_manager option" where
  "refresh fuel dm =
     (if suspended dm then Some (dm\<lparr>refreshNeeded := True\<rparr>)
      else
        (let beforeCount = length (rowCaseMap dm) in
         case makeCollections fuel (collectionClients (dataContext dm)) (tableCollection dm) of
           None \<Rightarrow> None
         | Some [] \<Rightarrow> None
         | Some (root # rest) \<Rightarrow>
             (case collectionClients (dataContext dm) root of
                None \<Rightarrow> None
              | Some c \<Rightarrow>
                  (case visit fuel (caseObjects (dataContext dm)) (collapsedNodes dm) (length (root # rest))
                          (casesController c) 0 [] of
                     None \<Rightarrow> None
                   | Some rowCaseIndex \<Rightarrow>
                       (let dm1 = dm\<lparr>rowCaseMap := rowCaseIndex\<rparr>;
                            dm2 = (if strictNotEqual (JsArray rowCaseIndex) (JsNumber beforeCount)
                                   then dm1\<lparr>onRowCountChanged :=
                                          onRowCountChanged dm1 @ [(beforeCount, length rowCaseIndex)]\<rparr>
                                   else dm1)
                        in Some (dm2\<lparr>refreshNeeded := False\<rparr>))))))"

definition beginUpdate :: "case_table_data_manager \<Rightarrow> case_table_data_manager" where
  "beginUpdate dm = dm\<lparr>suspended := True\<rparr>"

definition endUpdate :: "nat \<Rightarrow> case_table_data_manager \<Rightarrow> case_table_data_manager option" where
  "endUpdate fuel dm =
     (let dm1 = dm\<lparr>suspended := False\<rparr>
      in if refreshNeeded dm1 then refresh fuel dm1 else Some dm1)"

definition collapseGroup :: "case_table_data_manager \<Rightarrow> case_id \<Rightarrow> case_table_data_manager" where
  "collapseGroup dm iCaseID =
     (case getCaseByID (dataContext dm) iCaseID of
        Some myCase \<Rightarrow> collapseNode dm iCaseID
      | None \<Rightarrow> dm)"

definition expandGroup :: "case_table_data_manager \<Rightarrow> case_id \<Rightarrow> case_table_data_manager" where
  "expandGroup dm iCaseID =
     (case getCaseByID (dataContext dm) iCaseID of
        Some myCase \<Rightarrow> expandNode dm iCaseID
      | None \<Rightarrow> dm)"


section \<open>Well-formed contexts\<close>

text \<open>
  The case objects form a hierarchy whose depth is below the fuel: every case object
  has a rank below the fuel, and every child of a case object is a case object of lower
  rank.
\<close>

definition hierarchyWithin :: "(case_id \<Rightarrow> nat) \<Rightarrow> nat \<Rightarrow> data_context \<Rightarrow> bool" where
  "hierarchyWithin rank fuel ctx =
     (\<forall>i c. caseObjects ctx i = Some c \<longrightarrow>
        rank i < fuel \<and>
        (\<forall>k \<in> set (children c). caseObjects ctx k \<noteq> None \<and> rank k < rank i))"

text \<open>
  The cases that a change names, and the cases of the collections, are case objects.
\<close>

definition casesAreObjects :: "change \<Rightarrow> data_context \<Rightarrow> bool" where
  "casesAreObjects iChange ctx =
     ((\<forall>cs. cases iChange = Some cs \<longrightarrow> (\<forall>i \<in> set cs. caseObjects ctx i \<noteq> None)) \<and>
      (\<forall>c cl. collectionClients ctx c = Some cl \<longrightarrow>
         (\<forall>i \<in> set (casesController cl). caseObjects ctx i \<noteq> None)))"

text \<open>The selection set of a collection of the context, empty when it has no client.\<close>

definition selectionOf :: "data_context \<Rightarrow> coll_id \<Rightarrow> case_id fset" where
  "selectionOf ctx cid = (case collectionClients ctx cid of None \<Rightarrow> {||} | Some cl \<Rightarrow> selection cl)"


text \<open>The hierarchy is acyclic when some rank strictly decreases from every case to each
  of its children; a destroyed case is one whose object carries the destroyed mark. The
  invariant of the recursive delete relates the running state to the context at entry.\<close>

definition rankedChildren :: "(case_id \<Rightarrow> nat) \<Rightarrow> data_context \<Rightarrow> bool" where
  "rankedChildren rank ctx =
     (\<forall>i c. caseObjects ctx i = Some c \<longrightarrow> (\<forall>k \<in> set (children c). rank k < rank i))"

definition destroyedIn :: "data_context \<Rightarrow> case_id \<Rightarrow> bool" where
  "destroyedIn ctx i = (case caseObjects ctx i of None \<Rightarrow> False | Some c \<Rightarrow> isDestroyed c)"

definition deleteInv :: "(case_id \<Rightarrow> nat) \<Rightarrow> data_context \<Rightarrow> delete_state \<Rightarrow> bool" where
  "deleteInv rank ctx0 st =
     (rankedChildren rank (delContext st) \<and> distinct (delIds st) \<and>
      (\<forall>i. destroyedIn (delContext st) i = (destroyedIn ctx0 i \<or> i \<in> set (delIds st))) \<and>
      (\<forall>i \<in> set (delIds st). \<not> destroyedIn ctx0 i) \<and>
      map oldCase (deletedCases st) = delIds st)"

text \<open>
  Parents and children agree: the children of a case are distinct cases of the store that
  name it as their parent, and a case is among the children of its parent.
\<close>

definition linked :: "data_context \<Rightarrow> bool" where
  "linked ctx =
     ((\<forall>i c. getCaseByID ctx i = Some c \<longrightarrow>
          distinct (children c) \<and>
          (\<forall>k \<in> set (children c). \<exists>kc. getCaseByID ctx k = Some kc \<and> parent kc = Some i)) \<and>
      (\<forall>k kc p. getCaseByID ctx k = Some kc \<and> parent kc = Some p \<longrightarrow>
          (\<exists>pc. getCaseByID ctx p = Some pc \<and> k \<in> set (children pc))))"

text \<open>
  Collections and cases agree: a case is among the cases of its collection, the cases of
  a collection are distinct cases of the store that belong to it, and the values map of a
  case has a value for a leading part of the attributes of its collection, in their order
  (the keys of the map enumerate in ascending order). The store has no case object at or
  above the next ID.
\<close>

definition listed :: "data_context \<Rightarrow> bool" where
  "listed ctx =
     ((\<forall>i c. getCaseByID ctx i = Some c \<longrightarrow>
          (\<exists>cl. collectionClients ctx (collection c) = Some cl \<and> i \<in> set (casesController cl) \<and>
                sorted_wrt (<) (map fst (valuesMap c)) \<and>
                map fst (valuesMap c) = take (length (valuesMap c)) (attributeIDs cl))) \<and>
      (\<forall>cid cl. collectionClients ctx cid = Some cl \<longrightarrow>
          distinct (casesController cl) \<and>
          (\<forall>i \<in> set (casesController cl). \<exists>c. getCaseByID ctx i = Some c \<and> collection c = cid)))"

definition storeBound :: "data_context \<Rightarrow> bool" where
  "storeBound ctx = (\<forall>i. nextCaseID ctx \<le> i \<longrightarrow> caseObjects ctx i = None)"

text \<open>
  The trace of a deletion. An entry of the undo data can be deleted in a context when its
  case is there without children and the entry holds the values and the index of the case;
  a list of entries is a run of deletions when each entry can be deleted in the context
  that the earlier deletions leave. \<open>traced\<close> is the invariant of the recursion:
  the context of the state is the one that the recorded deletions leave.
\<close>

definition deletable :: "data_context \<Rightarrow> deleted_case \<Rightarrow> bool" where
  "deletable ctx d =
     (case getCaseByID ctx (oldCase d) of
        None \<Rightarrow> False
      | Some c \<Rightarrow>
          children c = [] \<and> oldValues d = valuesMap c \<and>
          oldIndex d = caseIDToIndexMap ctx (collection c) (oldCase d))"

fun deletions :: "data_context \<Rightarrow> deleted_case list \<Rightarrow> bool" where
  "deletions ctx [] = True"
| "deletions ctx (d # ds) = (deletable ctx d \<and> deletions (deleteCase (oldCase d) ctx) ds)"

definition deleteAll :: "deleted_case list \<Rightarrow> data_context \<Rightarrow> data_context" where
  "deleteAll ds ctx = fold (\<lambda>d. deleteCase (oldCase d)) ds ctx"

definition traced :: "data_context \<Rightarrow> delete_state \<Rightarrow> bool" where
  "traced ctx0 st =
     (linked (delContext st) \<and> deletions ctx0 (deletedCases st) \<and>
      deleteAll (deletedCases st) ctx0 = delContext st)"

definition shrunk :: "data_context \<Rightarrow> data_context \<Rightarrow> bool" where
  "shrunk ctx ctx' =
     (\<forall>z zc. caseObjects ctx z = Some zc \<longrightarrow>
        (\<exists>zc'. caseObjects ctx' z = Some zc' \<and> set (children zc') \<subseteq> set (children zc)))"

text \<open>
  A context restores another one along a renaming of the cases: each collection has the
  same cases at the same positions, renamed; each case has a counterpart with the same
  collection, the same values, the renamed parent and the renamed children (in some
  order); and different cases have different counterparts. \<open>kept\<close>: the destroyed
  case objects still name their collection and parent.
\<close>

definition restored :: "(case_id \<Rightarrow> case_id) \<Rightarrow> data_context \<Rightarrow> data_context \<Rightarrow> bool" where
  "restored f ctx ctx' =
     ((\<forall>cid. collectionClients ctx' cid =
          map_option (\<lambda>cl. cl\<lparr>casesController := map f (casesController cl)\<rparr>)
            (collectionClients ctx cid)) \<and>
      (\<forall>i c. getCaseByID ctx i = Some c \<longrightarrow>
          (\<exists>c'. getCaseByID ctx' (f i) = Some c' \<and> collection c' = collection c \<and>
                parent c' = map_option f (parent c) \<and> valuesMap c' = valuesMap c \<and>
                set (children c') = f ` set (children c))) \<and>
      (\<forall>i j ci cj. getCaseByID ctx i = Some ci \<and> getCaseByID ctx j = Some cj \<and> f i = f j
          \<longrightarrow> i = j))"

definition kept :: "data_context \<Rightarrow> data_context \<Rightarrow> bool" where
  "kept ctx ctx' =
     ((\<forall>i c. caseObjects ctx i = Some c \<and> isDestroyed c \<longrightarrow>
          (\<exists>c'. caseObjects ctx' i = Some c' \<and> collection c' = collection c \<and>
                parent c' = parent c)) \<and>
      storeBound ctx')"






section \<open>Example states\<close>

text \<open>
  Families (collection 1) is the parent of People (collection 2). The family 10 has the
  three people 11, 12 and 13 as its children; the table shows People.
\<close>

definition exampleContext :: data_context where
  "exampleContext =
     \<lparr>changeCount = 0, selectionChangeCount = 0, changes = [], priv_changeCount = 0,
      priv_prevChangeCount = 0, invokeLastQueue = 0, collections = [1, 2],
      collectionClients =
        [1 \<mapsto> \<lparr>name = ''Families'', parentCollectionID = None, attributeIDs = [1],
                casesController = [10], selection = {||}\<rparr>,
         2 \<mapsto> \<lparr>name = ''People'', parentCollectionID = Some 1, attributeIDs = [1, 2],
                casesController = [11, 12, 13], selection = {||}\<rparr>],
      caseObjects =
        [10 \<mapsto> \<lparr>collection = 1, parent = None, children = [11, 12, 13],
                 valuesMap = [(1, StrV ''Smith'')], isDestroyed = False\<rparr>,
         11 \<mapsto> \<lparr>collection = 2, parent = Some 10, children = [],
                 valuesMap = [(1, StrV ''Smith''), (2, StrV ''Ann'')], isDestroyed = False\<rparr>,
         12 \<mapsto> \<lparr>collection = 2, parent = Some 10, children = [],
                 valuesMap = [(1, StrV ''Smith''), (2, StrV ''Bob'')], isDestroyed = False\<rparr>,
         13 \<mapsto> \<lparr>collection = 2, parent = Some 10, children = [],
                 valuesMap = [(1, StrV ''Smith''), (2, StrV ''Cy'')], isDestroyed = False\<rparr>],
      nextCaseID = 14, undoStack = [], dirtyCount = 0\<rparr>"

definition exampleTable :: case_table_data_manager where
  "exampleTable =
     \<lparr>dataContext = exampleContext, tableCollection = Some 2, collapsedNodes = {},
      suspended = False, refreshNeeded = False, rowCaseMap = [], onRowCountChanged = []\<rparr>"

text \<open>
  Handlers for the other operations that do nothing, and two changes: selecting Ann
  (case 11), and creating a person with the value \<open>Dee\<close> under the family 10.
\<close>

definition noHandlers :: handlers where
  "noHandlers = (\<lambda>iChange ctx. Some (None, iChange, ctx))"

definition exampleChange :: change where
  "exampleChange =
     \<lparr>operation = SelectCases, isComplete = False, targetCollection = None, cases = None,
      select = True, extendFlag = False, properties = None, cellValues = None, ids = [],
      collectionIDs = [], result = None\<rparr>"

definition selectAnn :: change where
  "selectAnn = exampleChange\<lparr>cases := Some [11]\<rparr>"

definition createDee :: change where
  "createDee = exampleChange\<lparr>operation := CreateCase,
     properties := Some \<lparr>parentRef = ParentID 10, index = None\<rparr>,
     cellValues := Some [StrV ''Dee'']\<rparr>"

text \<open>
  The family 10 and the two collections of the example context, and two batches of
  \<open>createCases\<close> in People: one under the parent 999, which does not exist, and one
  under the family 10.
\<close>

definition family10 :: dg_case where
  "family10 = \<lparr>collection = 1, parent = None, children = [11, 12, 13],
                 valuesMap = [(1, StrV ''Smith'')], isDestroyed = False\<rparr>"

definition people :: collection_client where
  "people = \<lparr>name = ''People'', parentCollectionID = Some 1, attributeIDs = [1, 2],
                casesController = [11, 12, 13], selection = {||}\<rparr>"

definition families :: collection_client where
  "families = \<lparr>name = ''Families'', parentCollectionID = None, attributeIDs = [1],
                casesController = [10], selection = {||}\<rparr>"

definition createUnderNobody :: change where
  "createUnderNobody = exampleChange\<lparr>operation := CreateCases,
     targetCollection := Some (CollectionName ''People''),
     properties := Some \<lparr>parentRef = ParentID 999, index = None\<rparr>,
     cellValues := Some [ArrayV [StrV ''Eve''], ArrayV [StrV ''Fay'']]\<rparr>"

definition createTwins :: change where
  "createTwins = exampleChange\<lparr>operation := CreateCases,
     properties := Some \<lparr>parentRef = ParentID 10, index = None\<rparr>,
     cellValues := Some [ArrayV [StrV ''Eve''], ArrayV [StrV ''Fay'']]\<rparr>"

text \<open>
  The example context with a second family, 20, that has no children; the same with
  given selection sets for Families and People; the state with family 20 and Ann (11)
  selected, and the state with Ann and Bob (11 and 12) selected.
\<close>

definition townContext :: data_context where
  "townContext = exampleContext
     \<lparr>collectionClients := (collectionClients exampleContext)
        (1 \<mapsto> \<lparr>name = ''Families'', parentCollectionID = None, attributeIDs = [1],
                casesController = [10, 20], selection = {||}\<rparr>),
      caseObjects := (caseObjects exampleContext)
        (20 \<mapsto> \<lparr>collection = 1, parent = None, children = [],
                  valuesMap = [(1, StrV ''Jones'')], isDestroyed = False\<rparr>)\<rparr>"

definition withSelections :: "case_id fset \<Rightarrow> case_id fset \<Rightarrow> data_context \<Rightarrow> data_context" where
  "withSelections fams peos ctx = ctx
     \<lparr>collectionClients := (collectionClients ctx)
        (1 \<mapsto> \<lparr>name = ''Families'', parentCollectionID = None, attributeIDs = [1],
                casesController = [10, 20], selection = fams\<rparr>,
         2 \<mapsto> \<lparr>name = ''People'', parentCollectionID = Some 1, attributeIDs = [1, 2],
                casesController = [11, 12, 13], selection = peos\<rparr>)\<rparr>"

definition townSelected :: data_context where
  "townSelected = (withSelections {|20|} {|11|} townContext)\<lparr>selectionChangeCount := 1\<rparr>"


text \<open>A delete change that names a person, the person's family and the person again.\<close>

definition deleteFamilyAndAnn :: change where
  "deleteFamilyAndAnn = exampleChange\<lparr>operation := DeleteCases, cases := Some [11, 10, 11]\<rparr>"

text \<open>
  A context whose only collection lists its attributes in the order 2, 1 (a collection
  is reordered to the order its creator asks for), a change that creates a case there
  with a value for each attribute, and the deletion of that case.
\<close>

definition pointsContext :: data_context where
  "pointsContext =
     \<lparr>changeCount = 0, selectionChangeCount = 0, changes = [], priv_changeCount = 0,
      priv_prevChangeCount = 0, invokeLastQueue = 0, collections = [1],
      collectionClients =
        [1 \<mapsto> \<lparr>name = ''Points'', parentCollectionID = None, attributeIDs = [2, 1],
                casesController = [], selection = {||}\<rparr>],
      caseObjects = Map.empty, nextCaseID = 10, undoStack = [], dirtyCount = 0\<rparr>"

definition createPoint :: change where
  "createPoint = exampleChange\<lparr>operation := CreateCase,
     targetCollection := Some (CollectionName ''Points''),
     cellValues := Some [StrV ''north'', StrV ''east'']\<rparr>"

definition deletePoint :: change where
  "deletePoint = exampleChange\<lparr>operation := DeleteCases, cases := Some [10]\<rparr>"

section \<open>Evaluation of the model on concrete states\<close>

lemmas lookup_defs =
  childCollection_def collectionCount_def getCollectionAtIndex_def getCollectionByID_def
  getCollectionByName_def getCollectionForCase_def getCaseByID_def storeFind_def getValue_def

lemmas select_defs =
  doSelectCases_def selectTarget_def applyToCases_def selectCaseAndChildren_def
  deselectCaseAndChildren_def selectionChanges_def deselectionChanges_def
  addSelectionToCollectionMap_def doSelectByCollection_def selectByCollection_step_def
  doDeselectByCollection_def deselectByCollection_step_def extendForCollection_def
  selectObjects_def deselectObjects_def deselectOthers_def deselectAll_step_def
  selectObject_none_def

lemmas create_defs =
  doCreateCases_def createCasesDefaults_def emptyProperties_def propertiesOf_def
  resolveCollection_def checkParent_def isObject_def validateParent_def parentValuesOf_def
  createAll_def createOneCase_def createCase_def isNone_def setCaseValuesFromArray_def
  setValue_def insertAt_def parentOf_def addChild_def rejected_def

lemmas apply_defs =
  applyChange_def performChange_def dispatch_def withResult_def

section \<open>The row index: collapsing and expanding\<close>

lemma makeCollections_two_levels:
  assumes "cl B = Some cb" "parentCollectionID cb = Some A"
      "cl A = Some ca" "parentCollectionID ca = None"
  shows "makeCollections (Suc (Suc fuel)) cl (Some B) = Some [A, B]"
  using assms by (simp add: makeCollections_def)

text \<open>
  C7. In a hierarchy of two levels, where the root collection holds the one case \<open>P\<close>
  with the children \<open>c1\<close>, \<open>c2\<close>, \<open>c3\<close> and the table shows the child
  collection: after \<open>collapseGroup P\<close> and a refresh, \<open>getLength\<close> is 1 and row 0
  is \<open>P\<close>; after \<open>expandGroup P\<close> and a refresh, \<open>getLength\<close> is 3 and row
  \<open>i\<close> is the \<open>i\<close>-th child.
\<close>

theorem collapse_expand_round_trip:
  assumes "tableCollection dm = Some B"
    and "collectionClients (dataContext dm) B = Some cb" and "parentCollectionID cb = Some A"
    and "collectionClients (dataContext dm) A = Some ca" and "parentCollectionID ca = None"
    and "casesController ca = [P]"
    and "caseObjects (dataContext dm) P = Some p" and "\<not> isDestroyed p"
    and "children p = [c1, c2, c3]"
    and "\<not> suspended dm"
    and "2 \<le> fuel"
  shows "\<exists>dm1 dm2.
     refresh fuel (collapseGroup dm P) = Some dm1 \<and>
     getLength dm1 = 1 \<and> getItem dm1 0 = Some P \<and>
     refresh fuel (expandGroup dm1 P) = Some dm2 \<and>
     getLength dm2 = 3 \<and>
     getItem dm2 0 = Some c1 \<and> getItem dm2 1 = Some c2 \<and> getItem dm2 2 = Some c3"
proof -
  define k where "k = fuel - 2"
  have fuel: "fuel = Suc (Suc k)"
    using \<open>2 \<le> fuel\<close> by (simp add: k_def)
  have mc: "makeCollections (Suc (Suc k)) (collectionClients (dataContext dm)) (Some B) = Some [A, B]"
    using assms(2-5) by (rule makeCollections_two_levels)
  have sf: "getCaseByID (dataContext dm) P = Some p"
    using assms(7,8) by (simp add: getCaseByID_def storeFind_def)
  have c: "collapseGroup dm P = dm\<lparr>collapsedNodes := insert P (collapsedNodes dm)\<rparr>"
    by (simp add: collapseGroup_def sf collapseNode_def)
  define dm1 where "dm1 = dm\<lparr>collapsedNodes := insert P (collapsedNodes dm), rowCaseMap := [P],
      onRowCountChanged := onRowCountChanged dm @ [(length (rowCaseMap dm), 1)],
      refreshNeeded := False\<rparr>"
  have r1: "refresh fuel (collapseGroup dm P) = Some dm1"
    using assms(1-10) mc by (simp add: fuel c refresh_def dm1_def)
  have e: "expandGroup dm1 P = dm1\<lparr>collapsedNodes := collapsedNodes dm - {P}\<rparr>"
    using sf by (simp add: expandGroup_def dm1_def expandNode_def)
  define dm2 where "dm2 = dm1\<lparr>collapsedNodes := collapsedNodes dm - {P}, rowCaseMap := [c1, c2, c3],
      onRowCountChanged := onRowCountChanged dm1 @ [(1, 3)],
      refreshNeeded := False\<rparr>"
  have f1: "dataContext dm1 = dataContext dm"
      "tableCollection dm1 = tableCollection dm" "suspended dm1 = suspended dm"
      "rowCaseMap dm1 = [P]"
    by (simp_all add: dm1_def)
  have r2: "refresh fuel (expandGroup dm1 P) = Some dm2"
    unfolding e using assms(1-10) mc by (simp add: fuel refresh_def f1 dm2_def)
  show ?thesis
    using r1 r2 by (simp add: getLength_def getItem_def dm1_def dm2_def)
qed

theorem collapse_expand_round_trip_witness:
  "\<exists>dm1 dm2.
     refresh 2 (collapseGroup exampleTable 10) = Some dm1 \<and>
     getLength dm1 = 1 \<and> getItem dm1 0 = Some 10 \<and>
     refresh 2 (expandGroup dm1 10) = Some dm2 \<and>
     getLength dm2 = 3 \<and>
     getItem dm2 0 = Some 11 \<and> getItem dm2 1 = Some 12 \<and> getItem dm2 2 = Some 13"
  using collapse_expand_round_trip [of exampleTable 2 _ 1 _ 10 _ 11 12 13 2]
  by (simp add: exampleTable_def exampleContext_def)

section \<open>The row index: the row-count notification\<close>

text \<open>
  C8. A refresh that is not suspended should notify \<open>onRowCountChanged\<close> only when the
  number of rows has changed. The code tests the new array against the old length, and
  notifies also when the number of rows is the same: a second refresh of the example
  table finds 3 rows before and 3 rows after, and appends the notification \<open>(3, 3)\<close>.
\<close>

theorem refresh_notifies_unchanged_row_count:
  "\<exists>dm1 dm2.
     refresh 2 exampleTable = Some dm1 \<and> \<not> suspended dm1 \<and>
     refresh 2 dm1 = Some dm2 \<and>
     getLength dm1 = 3 \<and> getLength dm2 = 3 \<and>
     onRowCountChanged dm2 = onRowCountChanged dm1 @ [(3, 3)]"
  by (simp add: refresh_def makeCollections_def exampleTable_def exampleContext_def
      getLength_def numeral_2_eq_2)

section \<open>The change log and its counters\<close>

lemma logFields_createCase: "logFields (snd (createCase cid props ctx)) = logFields ctx"
  by (simp add: createCase_def logFields_def Let_def)

lemma logFields_setCaseValuesFromArray:
  "logFields (setCaseValuesFromArray cid i vs ctx) = logFields ctx"
  by (simp add: setCaseValuesFromArray_def logFields_def split: option.splits)

lemma logFields_createOneCase:
  "logFields (snd (createOneCase c props pv v st)) = logFields (snd st)"
proof -
  obtain ok created ctx where st: "st = ((ok, created), ctx)" by (metis surj_pair)
  obtain newCase ctx1 where cc: "createCase c props ctx = (newCase, ctx1)" by (metis surj_pair)
  have "logFields ctx1 = logFields ctx"
    using logFields_createCase [of c props ctx] by (simp add: cc)
  then show ?thesis
    by (simp add: st createOneCase_def cc logFields_setCaseValuesFromArray)
qed

lemma logFields_fold_createOneCase:
  "logFields (snd (fold (createOneCase c props pv) vs st)) = logFields (snd st)"
  by (induction vs arbitrary: st) (simp_all add: logFields_createOneCase)

lemma logFields_createAll:
  "logFields (snd (createAll c props pv vals ctx)) = logFields ctx"
  by (simp add: createAll_def Let_def logFields_fold_createOneCase)

lemma logFields_doCreateCases:
  assumes "doCreateCases iChange ctx = Some (res, ch, ctx')"
  shows "logFields ctx' = logFields ctx"
proof -
  have "ctx' = ctx \<or> (\<exists>c props pv vals. ctx' = snd (createAll c props pv vals ctx))"
    using assms
    by (auto simp: doCreateCases_def Let_def split: option.splits if_splits prod.splits)
      (metis snd_conv)
  then show ?thesis
    using logFields_createAll by auto
qed

lemma logFields_selectByCollection_step:
  "logFields (snd (selectByCollection_step ext e st)) = logFields (snd st)"
  by (cases st; cases e)
    (simp add: selectByCollection_step_def logFields_def split: prod.splits option.splits)

lemma logFields_doSelectByCollection:
  "logFields (snd (doSelectByCollection ext m st)) = logFields (snd st)"
  unfolding doSelectByCollection_def
  by (induction m arbitrary: st) (simp_all add: logFields_selectByCollection_step)

lemma logFields_deselectByCollection_step:
  "logFields (deselectByCollection_step e ctx) = logFields ctx"
  by (cases e) (simp add: deselectByCollection_step_def logFields_def split: option.splits)

lemma logFields_doDeselectByCollection:
  "logFields (doDeselectByCollection m ctx) = logFields ctx"
  unfolding doDeselectByCollection_def
  by (induction m arbitrary: ctx) (simp_all add: logFields_deselectByCollection_step)

lemma logFields_deselectAll_step:
  "logFields (snd (deselectAll_step ext cid st)) = logFields (snd st)"
  by (cases st)
    (simp add: deselectAll_step_def logFields_def extendForCollection_def split: prod.splits option.splits)

lemma logFields_fold_deselectAll:
  "logFields (snd (fold (deselectAll_step ext) cs st)) = logFields (snd st)"
  by (induction cs arbitrary: st) (simp_all add: logFields_deselectAll_step)

lemma logFields_selectionChangeCount [simp]:
  "logFields (ctx\<lparr>selectionChangeCount := n\<rparr>) = logFields ctx"
  by (simp add: logFields_def)

lemma logFields_applyToCases:
  assumes "applyToCases fuel sel ext cs ctx = Some (st, ctx1)"
  shows "logFields ctx1 = logFields ctx"
proof (cases sel)
  case True
  then obtain st1 where s: "selectCaseAndChildren fuel ctx cs
      \<lparr>tCollectionExtendMap = {}, tCollectionSelectionMap = [], isSelectionChanged = False\<rparr> = Some st1"
    using assms by (auto simp: applyToCases_def split: option.splits)
  obtain m c1 where
    r: "doSelectByCollection ext (tCollectionSelectionMap st1) (tCollectionExtendMap st1, ctx) = (m, c1)"
    by (metis surj_pair)
  have "c1 = ctx1"
    using assms True s r by (simp add: applyToCases_def)
  then show ?thesis
    using logFields_doSelectByCollection
      [of ext "tCollectionSelectionMap st1" "(tCollectionExtendMap st1, ctx)"]
    by (simp add: r)
next
  case False
  then show ?thesis
    using assms by (auto simp: applyToCases_def logFields_doDeselectByCollection split: option.splits)
qed

lemma logFields_deselectOthers: "logFields (deselectOthers ext m ctx) = logFields ctx"
  using logFields_fold_deselectAll [of ext "collections ctx" "(m, ctx)"]
  by (simp add: deselectOthers_def)

lemma doSelectCases_result:
  assumes "doSelectCases fuel iChange ctx = Some (res, ch, ctx')"
  shows "res = \<lparr>success = True, caseIDs = None, caseID = None\<rparr> \<and> ch = iChange \<and>
    (\<exists>st ctx1.
       ctx' = (if isSelectionChanged st
               then deselectOthers (extendFlag iChange) (tCollectionExtendMap st) ctx1 else ctx1) \<and>
       (ctx1 = ctx \<and> \<not> isSelectionChanged st \<or>
        (\<exists>cs. applyToCases fuel (select iChange) (extendFlag iChange) cs ctx = Some (st, ctx1))))"
proof -
  obtain tc where t: "selectTarget iChange ctx = Some tc"
    using assms by (auto simp: doSelectCases_def split: option.splits)
  define tCases where "tCases = (case cases iChange of Some cs \<Rightarrow> Some cs
     | None \<Rightarrow> (case tc of None \<Rightarrow> None
                 | Some c \<Rightarrow> map_option casesController (collectionClients ctx c)))"
  show ?thesis
  proof (cases tCases)
    case None
    then have "res = \<lparr>success = True, caseIDs = None, caseID = None\<rparr> \<and> ch = iChange \<and> ctx' = ctx"
      using assms t by (auto simp: doSelectCases_def tCases_def Let_def)
    then show ?thesis
      by (intro conjI exI [of _ "\<lparr>tCollectionExtendMap = {}, tCollectionSelectionMap = [],
          isSelectionChanged = False\<rparr>"] exI [of _ ctx]) simp_all
  next
    case (Some cs)
    then obtain st ctx1 where a: "applyToCases fuel (select iChange) (extendFlag iChange) cs ctx = Some (st, ctx1)"
      using assms t by (auto simp: doSelectCases_def tCases_def Let_def split: option.splits)
    have "res = \<lparr>success = True, caseIDs = None, caseID = None\<rparr> \<and> ch = iChange \<and>
        ctx' = (if isSelectionChanged st
               then deselectOthers (extendFlag iChange) (tCollectionExtendMap st) ctx1 else ctx1)"
      using assms t Some a by (auto simp: doSelectCases_def tCases_def Let_def)
    then show ?thesis
      using a by blast
  qed
qed

lemma logFields_doSelectCases:
  assumes "doSelectCases fuel iChange ctx = Some (res, ch, ctx')"
  shows "logFields ctx' = logFields ctx"
  using doSelectCases_result [OF assms]
  by (auto simp: logFields_deselectOthers dest: logFields_applyToCases)


lemma logFields_deleteCase: "logFields (deleteCase i ctx) = logFields ctx"
  by (simp add: deleteCase_def logFields_def split: option.splits)

lemma logFields_delete:
  "deleteCaseAndChildren fuel i st = Some st'
     \<Longrightarrow> logFields (delContext st') = logFields (delContext st)"
  "deleteChildren fuel i n st = Some st'
     \<Longrightarrow> logFields (delContext st') = logFields (delContext st)"
proof (induction fuel i st and fuel i n st arbitrary: st' and st'
    rule: deleteCaseAndChildren_deleteChildren.induct)
  case (1 iCase st)
  then show ?case by simp
next
  case (2 fuel iCase st)
  from "2.prems" obtain c where c: "caseObjects (delContext st) iCase = Some c"
    by (auto split: option.splits)
  show ?case
  proof (cases "isDestroyed c")
    case True
    then show ?thesis using "2.prems" c by simp
  next
    case False
    from "2.prems" c False obtain st1 where
      d: "deleteChildren fuel iCase (length (children c)) st = Some st1"
      by (auto split: option.splits)
    have l: "logFields (delContext st1) = logFields (delContext st)"
      using "2.IH" [OF c False d] .
    from "2.prems" c False d have "logFields (delContext st') = logFields (delContext st1)"
      by (auto simp: logFields_deleteCase split: option.splits)
    then show ?thesis using l by simp
  qed
next
  case (3 fuel iCase st)
  then show ?case by simp
next
  case (4 fuel iCase ix st)
  from "4.prems" obtain c where c: "caseObjects (delContext st) iCase = Some c"
    by (auto split: option.splits)
  from "4.prems" c have lt: "ix < length (children c)"
    by (auto split: if_splits)
  from "4.prems" c lt obtain st1 where
    d: "deleteCaseAndChildren fuel (children c ! ix) st = Some st1"
    and r: "deleteChildren fuel iCase ix st1 = Some st'"
    by (auto split: option.splits)
  show ?case
    using "4.IH"(1) [OF c lt d] "4.IH"(2) [OF c lt d r] by simp
qed

lemma logFields_deleteEach:
  "deleteEach fuel cs st = Some st' \<Longrightarrow> logFields (delContext st') = logFields (delContext st)"
proof (induction cs arbitrary: st)
  case Nil
  then show ?case by simp
next
  case (Cons a cs)
  then obtain st1 where d: "deleteCaseAndChildren fuel a st = Some st1"
    and r: "deleteEach fuel cs st1 = Some st'"
    by (auto split: option.splits)
  show ?case
    using logFields_delete(1) [OF d] Cons.IH [OF r] by simp
qed

lemma logFields_doDeleteCases:
  assumes "doDeleteCases fuel iChange ctx = Some (res, ch, ctx')"
  shows "logFields ctx' = logFields ctx"
proof -
  obtain cs st where
    d: "deleteEach fuel cs \<lparr>delContext = ctx, delIds = [], delCollectionIDs = [], deletedCases = []\<rparr> = Some st"
    and c: "logFields ctx' = logFields (delContext st)"
    using assms
    by (auto simp: doDeleteCases_def Let_def logFields_def split: option.splits)
  show ?thesis
    using logFields_deleteEach [OF d] c by simp
qed

lemma logFields_dirtyCount [simp]: "logFields (ctx\<lparr>dirtyCount := n\<rparr>) = logFields ctx"
  by (simp add: logFields_def)

lemma logFields_dispatch:
  assumes "\<forall>ch c r ch' c'. otherHandlers ch c = Some (r, ch', c') \<longrightarrow> logFields c' = logFields c"
    and "dispatch otherHandlers fuel iChange ctx = Some (d, res, ch, ctx')"
  shows "logFields ctx' = logFields ctx"
  using assms(2) assms(1) [rule_format, of iChange ctx res ch ctx']
  by (cases "operation iChange")
    (auto simp: dispatch_def withResult_def
      dest: logFields_doCreateCases logFields_doDeleteCases logFields_doSelectCases)

lemma logFields_performChange:
  assumes "\<forall>ch c r ch' c'. otherHandlers ch c = Some (r, ch', c') \<longrightarrow> logFields c' = logFields c"
    and "performChange otherHandlers fuel iChange ctx = Some (res, ch, ctx')"
  shows "logFields ctx' = logFields ctx"
proof (cases "isComplete iChange")
  case True
  then show ?thesis using assms(2) by (simp add: performChange_def)
next
  case False
  then obtain d ctx1 where
    p: "dispatch otherHandlers fuel iChange ctx = Some (d, res, ch, ctx1)"
    and c: "ctx' = (if d then ctx1\<lparr>dirtyCount := Suc (dirtyCount ctx1)\<rparr> else ctx1)"
    using assms(2) by (auto simp: performChange_def split: option.splits)
  have "logFields ctx1 = logFields ctx"
    using assms(1) p by (rule logFields_dispatch)
  then show ?thesis by (simp add: c)
qed

lemma applyChange_log:
  assumes "\<forall>ch c r ch' c'. otherHandlers ch c = Some (r, ch', c') \<longrightarrow> logFields c' = logFields c"
    and "applyChange otherHandlers fuel iChange ctx = Some (res, ctx')"
  shows "priv_changeCount ctx' = Suc (priv_changeCount ctx) \<and>
         length (changes ctx') = Suc (length (changes ctx)) \<and>
         changeCount ctx' = changeCount ctx \<and>
         invokeLastQueue ctx' = Suc (invokeLastQueue ctx)"
proof -
  obtain ch ctx1 where p: "performChange otherHandlers fuel iChange ctx = Some (res, ch, ctx1)"
    and c: "ctx' = ctx1\<lparr>changes := changes ctx1 @ [ch\<lparr>result := res\<rparr>],
                     priv_changeCount := Suc (priv_changeCount ctx1),
                     invokeLastQueue := Suc (invokeLastQueue ctx1)\<rparr>"
    using assms(2) by (auto simp: applyChange_def split: option.splits)
  have "logFields ctx1 = logFields ctx"
    using assms(1) p by (rule logFields_performChange)
  then show ?thesis by (simp add: c logFields_def)
qed

lemma applyChanges_log:
  assumes "\<forall>ch c r ch' c'. otherHandlers ch c = Some (r, ch', c') \<longrightarrow> logFields c' = logFields c"
    and "applyChanges otherHandlers fuel chs ctx = Some ctx'"
  shows "priv_changeCount ctx' = priv_changeCount ctx + length chs \<and>
         length (changes ctx') = length (changes ctx) + length chs \<and>
         changeCount ctx' = changeCount ctx \<and>
         invokeLastQueue ctx' = invokeLastQueue ctx + length chs"
  using assms(2)
proof (induction chs arbitrary: ctx)
  case Nil
  then show ?case by simp
next
  case (Cons ch chs)
  then obtain res ctx1 where a: "applyChange otherHandlers fuel ch ctx = Some (res, ctx1)"
    and r: "applyChanges otherHandlers fuel chs ctx1 = Some ctx'"
    by (auto split: option.splits)
  show ?case
    using applyChange_log [OF assms(1) a] Cons.IH [OF r] by simp
qed

text \<open>
  C1. When a sequence of \<open>N\<close> calls of \<open>applyChange\<close> has returned (whether or not
  \<open>isComplete\<close> is set), \<open>_changeCount\<close> has grown by exactly \<open>N\<close>, one per
  call, and the \<open>changes\<close> array is as long as it says; once the run loop has run
  the postponed notifications, \<open>changeCount\<close> has grown by \<open>N\<close> too and the
  \<open>changes\<close> array is as long as \<open>changeCount\<close> says. The context starts with no notification pending and with as many changes logged
  as \<open>changeCount\<close> says, as it is after \<open>init\<close>. The handlers that are a
  parameter leave the log and its counters alone, as those of the source do.
\<close>

theorem applyChange_counts_changes:
  assumes "\<forall>ch c r ch' c'. otherHandlers ch c = Some (r, ch', c') \<longrightarrow> logFields c' = logFields c"
    and "applyChanges otherHandlers fuel chs ctx = Some ctx'"
    and "changeCount ctx = priv_changeCount ctx"
    and "length (changes ctx) = changeCount ctx"
  shows "priv_changeCount ctx' = priv_changeCount ctx + length chs \<and>
         length (changes ctx') = priv_changeCount ctx' \<and>
         changeCount (endRunLoop ctx') = changeCount ctx + length chs \<and>
         length (changes (endRunLoop ctx')) = changeCount (endRunLoop ctx')"
  using applyChanges_log [OF assms(1,2)] assms(3,4)
  by (auto simp: endRunLoop_def)


lemma example_run:
  "\<exists>ctx'. applyChanges noHandlers 2 [selectAnn, createDee] exampleContext = Some ctx'"
  by (simp add: exampleContext_def selectAnn_def createDee_def exampleChange_def noHandlers_def
      apply_defs select_defs create_defs lookup_defs Let_def numeral_2_eq_2)

theorem applyChange_counts_changes_witness:
  "\<exists>ctx'. applyChanges noHandlers 2 [selectAnn, createDee] exampleContext = Some ctx' \<and>
     priv_changeCount ctx' = 2 \<and> length (changes ctx') = 2 \<and>
     changeCount (endRunLoop ctx') = 2 \<and> length (changes (endRunLoop ctx')) = 2"
proof -
  obtain ctx' where r: "applyChanges noHandlers 2 [selectAnn, createDee] exampleContext = Some ctx'"
    using example_run by blast
  have h: "\<forall>ch c r ch' c'. noHandlers ch c = Some (r, ch', c') \<longrightarrow> logFields c' = logFields c"
    by (simp add: noHandlers_def)
  show ?thesis
    using applyChange_counts_changes [OF h r] r by (simp add: exampleContext_def)
qed

section \<open>Selecting cases: the result\<close>

lemma caseAndChildren_returns:
  "(\<forall>i c. caseObjects ctx i = Some c \<longrightarrow>
        (\<forall>k \<in> set (children c). caseObjects ctx k \<noteq> None \<and> rank k < rank i))
    \<Longrightarrow> (\<forall>i \<in> set cs. caseObjects ctx i \<noteq> None \<and> rank i < fuel)
    \<Longrightarrow> \<exists>st'. caseAndChildren changed fuel ctx cs st = Some st'"
proof (induction changed fuel ctx cs st rule: caseAndChildren.induct)
  case (1 changed fuel ctx st)
  then show ?case by simp
next
  case (2 changed ctx iCase rest st)
  from "2.prems"(2) have "rank iCase < 0"
    by (rule ballE [where x = iCase]) simp_all
  then show ?case by simp
next
  case (3 changed fuel ctx iCase rest st)
  note h = "3.prems"(1)
  from "3.prems"(2) obtain c where c: "caseObjects ctx iCase = Some c"
    and rk: "rank iCase < Suc fuel"
    by auto
  have rest: "\<forall>i \<in> set rest. caseObjects ctx i \<noteq> None \<and> rank i < Suc fuel"
    using "3.prems"(2) by simp
  have k1: "caseObjects ctx k \<noteq> None \<and> rank k < rank iCase" if "k \<in> set (children c)" for k
    using h c that by blast
  have kids: "\<forall>i \<in> set (children c). caseObjects ctx i \<noteq> None \<and> rank i < fuel"
  proof
    fix i assume "i \<in> set (children c)"
    from k1 [OF this] rk show "caseObjects ctx i \<noteq> None \<and> rank i < fuel"
      by linarith
  qed
  show ?case
  proof (cases "collectionClients ctx (collection c)")
    case None
    then show ?thesis
      using "3.IH"(1) [OF c None h rest] c by simp
  next
    case (Some cl)
    define st1 where "st1 = (if changed (selection cl) iCase
                           then st\<lparr>isSelectionChanged := True\<rparr> else st)"
    define st2 where "st2 = st1\<lparr>tCollectionSelectionMap :=
                            addSelectionToCollectionMap (collection c) iCase
                              (tCollectionSelectionMap st1)\<rparr>"
    obtain st3 where k: "caseAndChildren changed fuel ctx (children c) st2 = Some st3"
      using "3.IH"(2) [OF c Some st1_def st2_def h kids] by blast
    obtain st4 where r: "caseAndChildren changed (Suc fuel) ctx rest st3 = Some st4"
      using "3.IH"(3) [OF c Some st1_def st2_def k h rest] by blast
    show ?thesis
      using c Some k r by (simp add: st1_def st2_def Let_def)
  qed
qed

text \<open>
  C9. \<open>doSelectCases\<close> returns, and its result is \<open>{success: true}\<close>, for every
  change: whatever cases it names (none, or cases whose selection does not change),
  whether or not there is a collection, selecting or deselecting. The case objects form a
  hierarchy within the fuel, the cases named are case objects, and
  \<open>iChange.collection\<close>, if given, is a collection client.
\<close>

theorem doSelectCases_reports_success:
  assumes "hierarchyWithin rank fuel ctx"
    and "casesAreObjects iChange ctx"
    and "selectTarget iChange ctx \<noteq> None"
  shows "\<exists>ctx'. doSelectCases fuel iChange ctx =
           Some (\<lparr>success = True, caseIDs = None, caseID = None\<rparr>, iChange, ctx')"
proof -
  obtain tc where t: "selectTarget iChange ctx = Some tc"
    using assms(3) by blast
  define tCases where "tCases = (case cases iChange of Some cs \<Rightarrow> Some cs
     | None \<Rightarrow> (case tc of None \<Rightarrow> None
                 | Some c \<Rightarrow> map_option casesController (collectionClients ctx c)))"
  have h: "\<forall>i c. caseObjects ctx i = Some c \<longrightarrow>
        (\<forall>k \<in> set (children c). caseObjects ctx k \<noteq> None \<and> rank k < rank i)"
    using assms(1) by (simp add: hierarchyWithin_def)
  show ?thesis
  proof (cases tCases)
    case None
    then show ?thesis
      using t by (simp add: doSelectCases_def tCases_def Let_def)
  next
    case (Some cs)
    have "\<forall>i \<in> set cs. caseObjects ctx i \<noteq> None"
      using Some assms(2)
      by (auto simp: tCases_def casesAreObjects_def split: option.splits)
    then have objs: "\<forall>i \<in> set cs. caseObjects ctx i \<noteq> None \<and> rank i < fuel"
      using assms(1) by (auto simp: hierarchyWithin_def)
    have "\<exists>st ctx1. applyToCases fuel (select iChange) (extendFlag iChange) cs ctx = Some (st, ctx1)"
    proof (cases "select iChange")
      case True
      obtain st1 where "selectCaseAndChildren fuel ctx cs
        \<lparr>tCollectionExtendMap = {}, tCollectionSelectionMap = [], isSelectionChanged = False\<rparr> = Some st1"
        using caseAndChildren_returns [OF h objs, of selectionChanges]
        unfolding selectCaseAndChildren_def by blast
      then show ?thesis
        using True by (simp add: applyToCases_def split: prod.splits)
    next
      case False
      obtain st1 where "deselectCaseAndChildren fuel ctx cs
        \<lparr>tCollectionExtendMap = {}, tCollectionSelectionMap = [], isSelectionChanged = False\<rparr> = Some st1"
        using caseAndChildren_returns [OF h objs, of deselectionChanges]
        unfolding deselectCaseAndChildren_def by blast
      then show ?thesis
        using False by (simp add: applyToCases_def)
    qed
    then obtain st ctx1 where
      a: "applyToCases fuel (select iChange) (extendFlag iChange) cs ctx = Some (st, ctx1)"
      by blast
    show ?thesis
      using t Some a by (simp add: doSelectCases_def tCases_def Let_def)
  qed
qed


theorem doSelectCases_reports_success_witness:
  "\<exists>ctx'. doSelectCases 2 selectAnn exampleContext =
           Some (\<lparr>success = True, caseIDs = None, caseID = None\<rparr>, selectAnn, ctx')"
  using doSelectCases_reports_success [of "\<lambda>i. if i = 10 then 1 else 0" 2 exampleContext selectAnn]
  by (simp add: hierarchyWithin_def casesAreObjects_def exampleContext_def selectAnn_def
      exampleChange_def selectTarget_def lookup_defs)

section \<open>Creating cases: the parent reference\<close>

text \<open>
  C2. A \<open>createCases\<close> change into a collection that has a parent collection, with a
  parent-case ID that resolves to no existing, non-deleted case: the result is
  \<open>success: false\<close> with an empty \<open>caseIDs\<close>, and the context is unchanged, so no
  case is added. The call returns (nothing is thrown): \<open>applyChange\<close> logs the change
  and the changes that follow it are applied as from the state before.
\<close>

theorem createCases_rejects_invalid_parent:
  assumes "operation iChange = CreateCases" and "\<not> isComplete iChange"
    and "resolveCollection ctx (targetCollection (createCasesDefaults iChange ctx)) = Some c"
    and "collectionClients ctx c = Some cl"
    and "parentCollectionID cl = Some pc" and "pc \<noteq> 0"
    and "properties iChange = Some props" and "parentRef props = ParentID k"
    and "getCaseByID ctx k = None"
  shows "doCreateCases iChange ctx =
           Some (\<lparr>success = False, caseIDs = Some [], caseID = None\<rparr>,
                 createCasesDefaults iChange ctx, ctx) \<and>
         applyChanges otherHandlers fuel (iChange # rest) ctx =
           applyChanges otherHandlers fuel rest
             (ctx\<lparr>changes := changes ctx @
                      [(createCasesDefaults iChange ctx)
                         \<lparr>result := Some \<lparr>success = False, caseIDs = Some [], caseID = None\<rparr>\<rparr>],
                   priv_changeCount := Suc (priv_changeCount ctx),
                   invokeLastQueue := Suc (invokeLastQueue ctx),
                   dirtyCount := Suc (dirtyCount ctx)\<rparr>)"
proof -
  have p: "properties (createCasesDefaults iChange ctx) = Some props"
    using assms(7) by (simp add: createCasesDefaults_def Let_def)
  have v: "\<not> validateParent ctx cl (ParentID k)"
    using assms(5,6,9) by (simp add: validateParent_def)
  have cp: "checkParent ctx (Some cl) (ParentID k) = Some (False, [])"
    using v by (simp add: checkParent_def isObject_def parentValuesOf_def)
  have d: "doCreateCases iChange ctx =
           Some (\<lparr>success = False, caseIDs = Some [], caseID = None\<rparr>,
                 createCasesDefaults iChange ctx, ctx)"
    using assms(3,4,8) p cp
    by (simp add: doCreateCases_def Let_def propertiesOf_def rejected_def)
  have a: "applyChange otherHandlers fuel iChange ctx =
      Some (Some \<lparr>success = False, caseIDs = Some [], caseID = None\<rparr>,
           ctx\<lparr>changes := changes ctx @
                      [(createCasesDefaults iChange ctx)
                         \<lparr>result := Some \<lparr>success = False, caseIDs = Some [], caseID = None\<rparr>\<rparr>],
                   priv_changeCount := Suc (priv_changeCount ctx),
                   invokeLastQueue := Suc (invokeLastQueue ctx),
                   dirtyCount := Suc (dirtyCount ctx)\<rparr>)"
    using assms(1,2) d by (simp add: apply_defs)
  show ?thesis
    using d a by simp
qed

theorem createCases_rejects_invalid_parent_witness:
  "doCreateCases createUnderNobody exampleContext =
     Some (\<lparr>success = False, caseIDs = Some [], caseID = None\<rparr>, createUnderNobody, exampleContext) \<and>
   applyChanges noHandlers 2 [createUnderNobody, createDee] exampleContext =
     applyChanges noHandlers 2 [createDee]
       (exampleContext\<lparr>changes := [createUnderNobody
                         \<lparr>result := Some \<lparr>success = False, caseIDs = Some [], caseID = None\<rparr>\<rparr>],
                   priv_changeCount := 1, invokeLastQueue := 1, dirtyCount := 1\<rparr>)"
proof -
  have d: "createCasesDefaults createUnderNobody exampleContext = createUnderNobody"
    by (simp add: createCasesDefaults_def createUnderNobody_def exampleChange_def)
  have c: "changes exampleContext = [] \<and> priv_changeCount exampleContext = 0 \<and>
      invokeLastQueue exampleContext = 0 \<and> dirtyCount exampleContext = 0"
    by (simp add: exampleContext_def)
  have r: "resolveCollection exampleContext (targetCollection createUnderNobody) = Some 2"
    by (simp add: resolveCollection_def createUnderNobody_def exampleChange_def
        getCollectionByName_def exampleContext_def)
  show ?thesis
    using createCases_rejects_invalid_parent [of createUnderNobody exampleContext 2 _ 1
        "\<lparr>parentRef = ParentID 999, index = None\<rparr>" 999 noHandlers 2 "[createDee]"]
    unfolding d
    by (simp add: r c)
      (simp add: createUnderNobody_def exampleChange_def exampleContext_def getCaseByID_def storeFind_def)
qed

section \<open>Creating cases: the values of the new case\<close>

lemma map_of_putProperty: "map_of (putProperty k v m) = (map_of m)(k \<mapsto> v)"
  by (induction k v m rule: putProperty.induct) (auto simp: fun_eq_iff)

lemma getValue_setValue: "getValue (setValue a v c) b = (if b = a then v else getValue c b)"
  by (simp add: getValue_def setValue_def map_of_putProperty)

lemma getValue_fold_other:
  "a \<notin> fst ` set xs \<Longrightarrow> getValue (fold (\<lambda>(a, v). setValue a v) xs c) a = getValue c a"
  by (induction xs arbitrary: c) (auto simp: getValue_setValue)

lemma getValue_fold_zip:
  "distinct attrs \<Longrightarrow> i < length attrs \<Longrightarrow> i < length vec
    \<Longrightarrow> getValue (fold (\<lambda>(a, v). setValue a v) (zip attrs vec) c) (attrs ! i) = vec ! i"
proof (induction attrs arbitrary: vec i c)
  case Nil
  then show ?case by simp
next
  case (Cons a attrs)
  then obtain v vs where vec: "vec = v # vs" by (cases vec) auto
  show ?case
  proof (cases i)
    case 0
    have "a \<notin> fst ` set (zip attrs vs)"
      using Cons.prems(1) by (auto dest: set_zip_leftD)
    then show ?thesis
      using 0 by (simp add: vec getValue_fold_other getValue_setValue)
  next
    case (Suc j)
    then show ?thesis
      using Cons.prems Cons.IH [of j vs "setValue a v c"] by (simp add: vec)
  qed
qed

lemma assigned_values:
  assumes "distinct attrs"
  shows "map (getValue (fold (\<lambda>(a, v). setValue a v) (zip attrs vec) c)) (take (length vec) attrs)
           = take (length attrs) vec"
  by (rule nth_equalityI) (simp_all add: getValue_fold_zip [OF assms])

lemma createOneCase_step:
  assumes "collectionClients ctx c = Some cl" and "parentOf (parentRef props) = Some k"
    and "k < nextCaseID ctx" and "distinct (attributeIDs cl)"
  shows "\<exists>cl' ctx'.
     createOneCase c props pv v ((ok, created), ctx) = ((True, created @ [nextCaseID ctx]), ctx') \<and>
     nextCaseID ctx' = Suc (nextCaseID ctx) \<and>
     collectionClients ctx' c = Some cl' \<and> attributeIDs cl' = attributeIDs cl \<and>
     (\<forall>i. i < nextCaseID ctx \<longrightarrow> i \<noteq> k \<longrightarrow> caseObjects ctx' i = caseObjects ctx i) \<and>
     (\<exists>nc. caseObjects ctx' (nextCaseID ctx) = Some nc \<and>
        (\<not> isNone v \<longrightarrow>
           map (getValue nc) (take (length (concatCell pv v)) (attributeIDs cl))
             = take (length (attributeIDs cl)) (concatCell pv v)))"
proof -
  define n where "n = nextCaseID ctx"
  define newCase where "newCase = \<lparr>collection = c, parent = Some k, children = [],
                     valuesMap = [], isDestroyed = False\<rparr>"
  define cl1 where "cl1 = cl\<lparr>casesController := insertAt (index props) n (casesController cl)\<rparr>"
  define objs1 where "objs1 = addChild (Some k) n ((caseObjects ctx)(n \<mapsto> newCase))"
  define ctx1 where "ctx1 = ctx\<lparr>caseObjects := objs1,
      collectionClients := (collectionClients ctx)(c \<mapsto> cl1), nextCaseID := Suc n\<rparr>"
  have cc: "createCase c props ctx = (n, ctx1)"
    using assms(1,2)
    by (simp add: createCase_def Let_def n_def newCase_def cl1_def objs1_def ctx1_def)
  have kn: "k \<noteq> n" using assms(3) by (simp add: n_def)
  have o1: "objs1 n = Some newCase"
    using kn by (simp add: objs1_def addChild_def split: option.splits)
  have o2: "objs1 i = caseObjects ctx i" if "i \<noteq> n" "i \<noteq> k" for i
    using that by (simp add: objs1_def addChild_def split: option.splits)
  show ?thesis
  proof (cases "isNone v")
    case True
    then have "createOneCase c props pv v ((ok, created), ctx) = ((True, created @ [n]), ctx1)"
      by (simp add: createOneCase_def cc)
    then show ?thesis
      using True o1 o2 by (auto simp: ctx1_def n_def [symmetric] cl1_def)
  next
    case False
    define nc where "nc = fold (\<lambda>(a, v). setValue a v) (zip (attributeIDs cl1) (concatCell pv v)) newCase"
    define ctx2 where "ctx2 = ctx1\<lparr>caseObjects := (caseObjects ctx1)(n \<mapsto> nc)\<rparr>"
    have s: "setCaseValuesFromArray c n (concatCell pv v) ctx1 = ctx2"
      using o1 by (simp add: setCaseValuesFromArray_def ctx1_def ctx2_def nc_def)
    have r: "createOneCase c props pv v ((ok, created), ctx) = ((True, created @ [n]), ctx2)"
      using False by (simp add: createOneCase_def cc s)
    have a: "attributeIDs cl1 = attributeIDs cl" by (simp add: cl1_def)
    have vals: "map (getValue nc) (take (length (concatCell pv v)) (attributeIDs cl))
             = take (length (attributeIDs cl)) (concatCell pv v)"
      unfolding nc_def a using assms(4) by (rule assigned_values)
    show ?thesis
      using r o2 vals a by (auto simp: ctx2_def ctx1_def n_def [symmetric])
  qed
qed

lemma fold_createOneCase:
  assumes "parentOf (parentRef props) = Some k"
  shows "collectionClients ctx c = Some cl \<Longrightarrow> k < nextCaseID ctx \<Longrightarrow> distinct (attributeIDs cl)
   \<Longrightarrow> \<exists>ctx'. fold (createOneCase c props pv) vals ((ok, created), ctx)
         = ((ok \<or> vals \<noteq> [], created @ [nextCaseID ctx ..< nextCaseID ctx + length vals]), ctx') \<and>
       (\<forall>i. i < nextCaseID ctx \<longrightarrow> i \<noteq> k \<longrightarrow> caseObjects ctx' i = caseObjects ctx i) \<and>
       (\<forall>j < length vals. \<exists>nc. caseObjects ctx' (nextCaseID ctx + j) = Some nc \<and>
          (\<not> isNone (vals ! j) \<longrightarrow>
             map (getValue nc) (take (length (concatCell pv (vals ! j))) (attributeIDs cl))
               = take (length (attributeIDs cl)) (concatCell pv (vals ! j))))"
proof (induction vals arbitrary: ctx cl ok created)
  case Nil
  then show ?case by simp
next
  case (Cons v vals)
  obtain cl1 ctx1 where
    s: "createOneCase c props pv v ((ok, created), ctx) = ((True, created @ [nextCaseID ctx]), ctx1)"
    and n1: "nextCaseID ctx1 = Suc (nextCaseID ctx)"
    and c1: "collectionClients ctx1 c = Some cl1" and a1: "attributeIDs cl1 = attributeIDs cl"
    and f1: "\<forall>i. i < nextCaseID ctx \<longrightarrow> i \<noteq> k \<longrightarrow> caseObjects ctx1 i = caseObjects ctx i"
    and v1: "\<exists>nc. caseObjects ctx1 (nextCaseID ctx) = Some nc \<and>
        (\<not> isNone v \<longrightarrow>
           map (getValue nc) (take (length (concatCell pv v)) (attributeIDs cl))
             = take (length (attributeIDs cl)) (concatCell pv v))"
    using createOneCase_step [OF Cons.prems(1) assms Cons.prems(2,3), of pv v ok created] by blast
  have k1: "k < nextCaseID ctx1" using Cons.prems(2) n1 by simp
  have d1: "distinct (attributeIDs cl1)" using Cons.prems(3) a1 by simp
  obtain ctx' where
    r: "fold (createOneCase c props pv) vals ((True, created @ [nextCaseID ctx]), ctx1)
         = ((True \<or> vals \<noteq> [], (created @ [nextCaseID ctx]) @
               [nextCaseID ctx1 ..< nextCaseID ctx1 + length vals]), ctx')"
    and f: "\<forall>i. i < nextCaseID ctx1 \<longrightarrow> i \<noteq> k \<longrightarrow> caseObjects ctx' i = caseObjects ctx1 i"
    and vs: "\<forall>j < length vals. \<exists>nc. caseObjects ctx' (nextCaseID ctx1 + j) = Some nc \<and>
          (\<not> isNone (vals ! j) \<longrightarrow>
             map (getValue nc) (take (length (concatCell pv (vals ! j))) (attributeIDs cl1))
               = take (length (attributeIDs cl1)) (concatCell pv (vals ! j)))"
    using Cons.IH [OF c1 k1 d1, of True "created @ [nextCaseID ctx]"] by blast
  have ids: "[nextCaseID ctx ..< nextCaseID ctx + length (v # vals)]
      = nextCaseID ctx # [nextCaseID ctx1 ..< nextCaseID ctx1 + length vals]"
    using upt_conv_Cons [of "nextCaseID ctx" "nextCaseID ctx + Suc (length vals)"]
    by (simp add: n1 del: upt_Suc)
  have kn: "nextCaseID ctx \<noteq> k" using Cons.prems(2) by simp
  have same: "caseObjects ctx' (nextCaseID ctx) = caseObjects ctx1 (nextCaseID ctx)"
    using f kn by (simp add: n1)
  have frame: "\<forall>i. i < nextCaseID ctx \<longrightarrow> i \<noteq> k \<longrightarrow> caseObjects ctx' i = caseObjects ctx i"
    using f f1 by (simp add: n1)
  have each: "\<exists>nc. caseObjects ctx' (nextCaseID ctx + j) = Some nc \<and>
          (\<not> isNone ((v # vals) ! j) \<longrightarrow>
             map (getValue nc) (take (length (concatCell pv ((v # vals) ! j))) (attributeIDs cl))
               = take (length (attributeIDs cl)) (concatCell pv ((v # vals) ! j)))"
    if "j < length (v # vals)" for j
  proof (cases j)
    case 0
    then show ?thesis using v1 same by simp
  next
    case (Suc m)
    then have "m < length vals" using that by simp
    then show ?thesis
      using vs Suc by (simp add: n1 a1)
  qed
  have "fold (createOneCase c props pv) (v # vals) ((ok, created), ctx)
         = ((ok \<or> v # vals \<noteq> [],
             created @ [nextCaseID ctx ..< nextCaseID ctx + length (v # vals)]), ctx')"
    unfolding ids using s r by simp
  then show ?case
    using frame each by blast
qed

text \<open>
  C3. A change that creates cases under a valid parent-case ID (true, and resolving to
  an existing case): the \<open>j\<close>-th new case is assigned the vector made of the parent
  case's values, in the order of the attribute IDs of the parent's collection, followed
  by the \<open>j\<close>-th element of the values of the change. Read in the order of the
  attribute IDs of its collection, the values of the new case are that vector (as far as
  the collection has attributes). A \<open>createCase\<close> change comes here with its values
  as the one element. The IDs of the case objects are below the next ID to give out.
\<close>

theorem created_case_values:
  assumes "resolveCollection ctx (targetCollection (createCasesDefaults iChange ctx)) = Some c"
    and "collectionClients ctx c = Some cl" and "distinct (attributeIDs cl)"
    and "properties iChange = Some props" and "parentRef props = ParentID k" and "k \<noteq> 0"
    and "getCaseByID ctx k = Some parentCase"
    and "collectionClients ctx (collection parentCase) = Some pcl"
    and "cellValues iChange = Some vals"
    and "\<forall>i. caseObjects ctx i \<noteq> None \<longrightarrow> i < nextCaseID ctx"
  shows "\<exists>res ch ctx'. doCreateCases iChange ctx = Some (res, ch, ctx') \<and>
      caseIDs res = Some [nextCaseID ctx ..< nextCaseID ctx + length vals] \<and>
      (\<forall>j < length vals. \<exists>newCase. caseObjects ctx' (nextCaseID ctx + j) = Some newCase \<and>
         (\<not> isNone (vals ! j) \<longrightarrow>
            map (getValue newCase)
                (take (length (concatCell (map (getValue parentCase) (attributeIDs pcl)) (vals ! j)))
                   (attributeIDs cl))
              = take (length (attributeIDs cl))
                  (concatCell (map (getValue parentCase) (attributeIDs pcl)) (vals ! j))))"
proof -
  define pv where "pv = map (getValue parentCase) (attributeIDs pcl)"
  define ch where "ch = createCasesDefaults iChange ctx"
  have p: "propertiesOf ch = props"
    using assms(4) by (simp add: ch_def createCasesDefaults_def Let_def propertiesOf_def)
  have cv: "cellValues ch = Some vals"
    using assms(9) by (simp add: ch_def createCasesDefaults_def Let_def)
  have v: "validateParent ctx cl (ParentID k)"
    using assms(7) by (simp add: validateParent_def split: option.splits)
  have cp: "checkParent ctx (Some cl) (ParentID k) = Some (True, pv)"
    using v assms(6,7,8) by (simp add: checkParent_def isObject_def parentValuesOf_def pv_def)
  have po: "parentOf (parentRef props) = Some k"
    using assms(5) by (simp add: parentOf_def)
  have "caseObjects ctx k \<noteq> None"
    using assms(7) by (auto simp: getCaseByID_def storeFind_def split: option.splits)
  then have kn: "k < nextCaseID ctx"
    using assms(10) by blast
  obtain ctx' where
    f: "fold (createOneCase c props pv) vals ((False, []), ctx)
         = ((False \<or> vals \<noteq> [], [] @ [nextCaseID ctx ..< nextCaseID ctx + length vals]), ctx')"
    and each: "\<forall>j < length vals. \<exists>nc. caseObjects ctx' (nextCaseID ctx + j) = Some nc \<and>
          (\<not> isNone (vals ! j) \<longrightarrow>
             map (getValue nc) (take (length (concatCell pv (vals ! j))) (attributeIDs cl))
               = take (length (attributeIDs cl)) (concatCell pv (vals ! j)))"
    using fold_createOneCase [OF po assms(2) kn assms(3),
        where pv = pv and vals = vals and ok = False and created = "[]"] by blast
  define res where "res = fst (createAll c props pv (Some vals) ctx)"
  have ca: "createAll c props pv (Some vals) ctx = (res, ctx')"
    by (simp add: res_def createAll_def Let_def f)
  have ids: "caseIDs res = Some [nextCaseID ctx ..< nextCaseID ctx + length vals]"
    by (simp add: res_def createAll_def Let_def f)
  have "doCreateCases iChange ctx = Some (res, ch, ctx')"
    using assms(1,2,5) p cv cp ca
    by (simp add: doCreateCases_def Let_def ch_def [symmetric])
  then show ?thesis
    using ids each unfolding pv_def by blast
qed

theorem created_case_values_witness:
  "\<exists>res ch ctx' case14 case15.
     doCreateCases createTwins exampleContext = Some (res, ch, ctx') \<and>
     caseIDs res = Some [14, 15] \<and>
     caseObjects ctx' 14 = Some case14 \<and> map (getValue case14) [1, 2] = [StrV ''Smith'', StrV ''Eve''] \<and>
     caseObjects ctx' 15 = Some case15 \<and> map (getValue case15) [1, 2] = [StrV ''Smith'', StrV ''Fay'']"
proof -
  have h1: "resolveCollection exampleContext
      (targetCollection (createCasesDefaults createTwins exampleContext)) = Some 2"
    by (simp add: createCasesDefaults_def createTwins_def exampleChange_def resolveCollection_def
        exampleContext_def lookup_defs Let_def)
  have h2: "collectionClients exampleContext 2 = Some people"
    by (simp add: exampleContext_def people_def)
  have h3: "distinct (attributeIDs people)"
    by (simp add: people_def)
  have h4: "properties createTwins = Some \<lparr>parentRef = ParentID 10, index = None\<rparr>"
    by (simp add: createTwins_def exampleChange_def)
  have h5: "parentRef \<lparr>parentRef = ParentID 10, index = None\<rparr> = ParentID 10"
    by simp
  have h6: "(10::nat) \<noteq> 0" by simp
  have h7: "getCaseByID exampleContext 10 = Some family10"
    by (simp add: getCaseByID_def storeFind_def exampleContext_def family10_def)
  have h8: "collectionClients exampleContext (collection family10) = Some families"
    by (simp add: exampleContext_def family10_def families_def)
  have h9: "cellValues createTwins = Some [ArrayV [StrV ''Eve''], ArrayV [StrV ''Fay'']]"
    by (simp add: createTwins_def exampleChange_def)
  have h10: "\<forall>i. caseObjects exampleContext i \<noteq> None \<longrightarrow> i < nextCaseID exampleContext"
    by (simp add: exampleContext_def)
  have n: "nextCaseID exampleContext = 14"
    by (simp add: exampleContext_def)
  have pv: "map (getValue family10) (attributeIDs families) = [StrV ''Smith'']"
    by (simp add: family10_def families_def getValue_def)
  obtain res ch ctx' where d: "doCreateCases createTwins exampleContext = Some (res, ch, ctx')"
    and ids: "caseIDs res = Some [14 ..< 14 + 2]"
    and each: "\<And>j. j < 2 \<Longrightarrow> \<exists>newCase. caseObjects ctx' (14 + j) = Some newCase \<and>
         (\<not> isNone ([ArrayV [StrV ''Eve''], ArrayV [StrV ''Fay'']] ! j) \<longrightarrow>
            map (getValue newCase)
                (take (length (concatCell [StrV ''Smith''] ([ArrayV [StrV ''Eve''], ArrayV [StrV ''Fay'']] ! j)))
                   (attributeIDs people))
              = take (length (attributeIDs people))
                  (concatCell [StrV ''Smith''] ([ArrayV [StrV ''Eve''], ArrayV [StrV ''Fay'']] ! j)))"
    using created_case_values [OF h1 h2 h3 h4 h5 h6 h7 h8 h9 h10]
    unfolding n pv by auto
  obtain case14 where c14: "caseObjects ctx' 14 = Some case14"
    and v14: "map (getValue case14) [1, 2] = [StrV ''Smith'', StrV ''Eve'']"
    using each [of 0] by (auto simp: isNone_def people_def)
  obtain case15 where c15: "caseObjects ctx' 15 = Some case15"
    and v15: "map (getValue case15) [1, 2] = [StrV ''Smith'', StrV ''Fay'']"
    using each [of 1] by (auto simp: isNone_def people_def)
  have "[14 ..< 14 + 2] = [14::nat, 15]"
    by (simp add: upt_rec)
  then show ?thesis
    using d ids c14 v14 c15 v15 by auto
qed

section \<open>Selecting cases: extending the selection\<close>

lemma deselectAll_step_clients:
  "collectionClients (snd (deselectAll_step ext c (m, ctx))) cid =
     (if \<not> ext \<and> cid = c \<and> c \<noteq> 0 \<and> c \<notin> m
      then map_option selectObject_none (collectionClients ctx cid)
      else collectionClients ctx cid)"
  by (cases "collectionClients ctx c") (simp_all add: deselectAll_step_def extendForCollection_def)

lemma deselectAll_step_map:
  "fst (deselectAll_step ext c (m, ctx)) =
     (if collectionClients ctx c \<noteq> None \<and> c \<noteq> 0 then insert c m else m)"
  by (cases "collectionClients ctx c")
    (auto simp: deselectAll_step_def extendForCollection_def insert_absorb)

lemma selectObject_none_idem: "selectObject_none (selectObject_none cl) = selectObject_none cl"
  by (simp add: selectObject_none_def)

lemma fold_deselectAll_clients:
  "collectionClients (snd (fold (deselectAll_step ext) colls (m, ctx))) cid =
     (if \<not> ext \<and> cid \<in> set colls \<and> cid \<noteq> 0 \<and> cid \<notin> m
      then map_option selectObject_none (collectionClients ctx cid)
      else collectionClients ctx cid)"
proof (induction colls arbitrary: m ctx)
  case Nil
  then show ?case by simp
next
  case (Cons c colls)
  obtain m1 ctx1 where s: "deselectAll_step ext c (m, ctx) = (m1, ctx1)"
    by (metis surj_pair)
  have c1: "collectionClients ctx1 cid =
     (if \<not> ext \<and> cid = c \<and> c \<noteq> 0 \<and> c \<notin> m
      then map_option selectObject_none (collectionClients ctx cid)
      else collectionClients ctx cid)"
    using deselectAll_step_clients [of ext c m ctx cid] by (simp add: s)
  have m1: "m1 = (if collectionClients ctx c \<noteq> None \<and> c \<noteq> 0 then insert c m else m)"
    using deselectAll_step_map [of ext c m ctx] by (simp add: s)
  have "collectionClients (snd (fold (deselectAll_step ext) (c # colls) (m, ctx))) cid =
     (if \<not> ext \<and> cid \<in> set colls \<and> cid \<noteq> 0 \<and> cid \<notin> m1
      then map_option selectObject_none (collectionClients ctx1 cid)
      else collectionClients ctx1 cid)"
    using Cons.IH [of m1 ctx1] by (simp add: s)
  also have "\<dots> = (if \<not> ext \<and> cid \<in> set (c # colls) \<and> cid \<noteq> 0 \<and> cid \<notin> m
      then map_option selectObject_none (collectionClients ctx cid)
      else collectionClients ctx cid)"
  proof (cases "cid = c")
    case True
    show ?thesis
    proof (cases "collectionClients ctx c")
      case None
      then show ?thesis using c1 unfolding True by (auto simp: m1)
    next
      case (Some cl)
      then show ?thesis using c1 unfolding True by (auto simp: m1 selectObject_none_idem)
    qed
  next
    case False
    then show ?thesis by (simp add: c1 m1)
  qed
  finally show ?case .
qed

lemma deselectOthers_selection:
  "selectionOf (deselectOthers ext m ctx) cid =
     (if \<not> ext \<and> cid \<in> set (collections ctx) \<and> cid \<noteq> 0 \<and> cid \<notin> m then {||}
      else selectionOf ctx cid)"
  by (cases "collectionClients ctx cid")
    (simp_all add: selectionOf_def deselectOthers_def fold_deselectAll_clients selectObject_none_def)


lemma leaf_visit:
  assumes "caseObjects ctx x = Some c" and "children c = []"
    and "collectionClients ctx (collection c) = Some cl"
  shows "caseAndChildren test (Suc f) ctx (x # rest) st =
     caseAndChildren test (Suc f) ctx rest
       (st\<lparr>isSelectionChanged := isSelectionChanged st \<or> test (selection cl) x,
           tCollectionSelectionMap :=
             addSelectionToCollectionMap (collection c) x (tCollectionSelectionMap st)\<rparr>)"
proof (cases "test (selection cl) x")
  case True
  then show ?thesis using assms by (simp add: Let_def)
next
  case False
  then show ?thesis using assms by (simp add: Let_def)
qed

lemma select_one_entry:
  assumes "collectionClients ctx A = Some clA"
  shows "doSelectByCollection ext [(A, xs)] ({}, ctx) =
     ({A}, ctx\<lparr>collectionClients := (collectionClients ctx)(A \<mapsto> selectObjects xs ext clA)\<rparr>)"
  using assms
  by (simp add: doSelectByCollection_def selectByCollection_step_def extendForCollection_def)

lemma select_two_entries:
  assumes "collectionClients ctx A = Some clA" and "collectionClients ctx B = Some clB"
    and "A \<noteq> B"
  shows "doSelectByCollection ext [(A, xs), (B, ys)] ({}, ctx) =
     ({A, B}, ctx\<lparr>collectionClients := (collectionClients ctx)
        (A \<mapsto> selectObjects xs ext clA, B \<mapsto> selectObjects ys ext clB)\<rparr>)"
  using assms
  by (auto simp: doSelectByCollection_def selectByCollection_step_def extendForCollection_def)

text \<open>
  Two cases without children, \<open>a\<close> in collection \<open>A\<close> and \<open>b\<close> in another
  collection \<open>B\<close>. \<open>extendForCollection\<close> answers the caller's \<open>extend\<close> flag the
  first time it is asked about a collection and \<open>true\<close> every time after. Selecting
  both cases without \<open>extend\<close> in one call leaves \<open>A\<close> with exactly \<open>a\<close> and
  \<open>B\<close> with exactly \<open>b\<close> selected; selecting \<open>a\<close> alone without \<open>extend\<close>
  leaves \<open>A\<close> with exactly \<open>a\<close> selected, and it clears the selection of \<open>B\<close>
  when \<open>a\<close> was not selected before or \<open>A\<close> had more than one case selected, and
  leaves the selection of \<open>B\<close> as it was otherwise.
\<close>

lemma select_extend_semantics:
  assumes "A \<noteq> B"
    and "collectionClients ctx A = Some clA" and "collectionClients ctx B = Some clB"
    and "caseObjects ctx a = Some ca" and "collection ca = A" and "children ca = []"
    and "caseObjects ctx b = Some cb" and "collection cb = B" and "children cb = []"
    and "B \<in> set (collections ctx)" and "B \<noteq> 0"
    and "select iChange" and "\<not> extendFlag iChange" and "selectTarget iChange ctx \<noteq> None"
    and "0 < fuel"
  shows "fst (extendForCollection e c {}) = e \<and>
     fst (extendForCollection e c (snd (extendForCollection e c m) \<union> m')) = True \<and>
     (\<exists>ctx1. doSelectCases fuel (iChange\<lparr>cases := Some [a, b]\<rparr>) ctx =
          Some (\<lparr>success = True, caseIDs = None, caseID = None\<rparr>, iChange\<lparr>cases := Some [a, b]\<rparr>, ctx1) \<and>
        selectionOf ctx1 A = {|a|} \<and> selectionOf ctx1 B = {|b|}) \<and>
     (\<exists>ctx2. doSelectCases fuel (iChange\<lparr>cases := Some [a]\<rparr>) ctx =
          Some (\<lparr>success = True, caseIDs = None, caseID = None\<rparr>, iChange\<lparr>cases := Some [a]\<rparr>, ctx2) \<and>
        selectionOf ctx2 A = {|a|} \<and>
        selectionOf ctx2 B =
          (if a |\<notin>| selection clA \<or> 1 < fcard (selection clA) then {||} else selection clB))"
proof -
  obtain f where fuel: "fuel = Suc f"
    using assms(15) by (cases fuel) auto
  obtain tc where t: "selectTarget iChange ctx = Some tc"
    using assms(14) by blast
  have t1: "selectTarget (iChange\<lparr>cases := cs\<rparr>) ctx = Some tc" for cs
    using t by (simp add: selectTarget_def)
  let ?st0 = "\<lparr>tCollectionExtendMap = {}, tCollectionSelectionMap = [], isSelectionChanged = False\<rparr>"
  have e: "fst (extendForCollection e c {}) = e \<and>
     fst (extendForCollection e c (snd (extendForCollection e c m) \<union> m')) = True"
    by (simp add: extendForCollection_def)
  have la: "caseAndChildren test (Suc f) ctx (a # rest) st =
     caseAndChildren test (Suc f) ctx rest
       (st\<lparr>isSelectionChanged := isSelectionChanged st \<or> test (selection clA) a,
           tCollectionSelectionMap := addSelectionToCollectionMap A a (tCollectionSelectionMap st)\<rparr>)"
    for test rest st
    using leaf_visit [OF assms(4,6), of clA test f rest st] assms(2,5) by simp
  have lb: "caseAndChildren test (Suc f) ctx (b # rest) st =
     caseAndChildren test (Suc f) ctx rest
       (st\<lparr>isSelectionChanged := isSelectionChanged st \<or> test (selection clB) b,
           tCollectionSelectionMap := addSelectionToCollectionMap B b (tCollectionSelectionMap st)\<rparr>)"
    for test rest st
    using leaf_visit [OF assms(7,9), of clB test f rest st] assms(3,8) by simp
  \<comment> \<open>the two cases in one call\<close>
  define chg2 where "chg2 = (selectionChanges (selection clA) a \<or> selectionChanges (selection clB) b)"
  define m2 where "m2 = (if B < A then [(B, [b]), (A, [a])] else [(A, [a]), (B, [b])])"
  have v2: "selectCaseAndChildren fuel ctx [a, b] ?st0 =
      Some \<lparr>tCollectionExtendMap = {}, tCollectionSelectionMap = m2, isSelectionChanged = chg2\<rparr>"
    using assms(1)
    by (simp add: selectCaseAndChildren_def fuel la lb addSelectionToCollectionMap_def
        m2_def chg2_def del: caseAndChildren.simps(3))
  define c2 where "c2 = ctx\<lparr>collectionClients := (collectionClients ctx)
        (A \<mapsto> selectObjects [a] False clA, B \<mapsto> selectObjects [b] False clB)\<rparr>"
  have s2: "doSelectByCollection False m2 ({}, ctx) = ({A, B}, c2)"
  proof (cases "B < A")
    case True
    have "doSelectByCollection False [(B, [b]), (A, [a])] ({}, ctx) =
     ({B, A}, ctx\<lparr>collectionClients := (collectionClients ctx)
        (B \<mapsto> selectObjects [b] False clB, A \<mapsto> selectObjects [a] False clA)\<rparr>)"
      using assms(1-3) by (intro select_two_entries) auto
    then show ?thesis
      using True assms(1) by (simp add: m2_def c2_def insert_commute fun_upd_twist)
  next
    case False
    then show ?thesis
      using select_two_entries [OF assms(2,3,1)] by (simp add: m2_def c2_def)
  qed
  have a2: "applyToCases fuel True False [a, b] ctx =
      Some (\<lparr>tCollectionExtendMap = {A, B}, tCollectionSelectionMap = m2, isSelectionChanged = chg2\<rparr>, c2)"
    by (simp add: applyToCases_def v2 s2)
  define ctx1 where "ctx1 = (if chg2 then deselectOthers False {A, B} c2 else c2)"
  have d2: "doSelectCases fuel (iChange\<lparr>cases := Some [a, b]\<rparr>) ctx =
          Some (\<lparr>success = True, caseIDs = None, caseID = None\<rparr>, iChange\<lparr>cases := Some [a, b]\<rparr>, ctx1)"
    using assms(12,13) by (simp add: doSelectCases_def t1 a2 ctx1_def)
  have sel2: "selectionOf ctx1 A = {|a|} \<and> selectionOf ctx1 B = {|b|}"
    using assms(1)
    by (simp add: ctx1_def deselectOthers_selection)
      (simp add: selectionOf_def c2_def selectObjects_def)
  \<comment> \<open>the one case alone\<close>
  define chg1 where "chg1 = selectionChanges (selection clA) a"
  have v1: "selectCaseAndChildren fuel ctx [a] ?st0 =
      Some \<lparr>tCollectionExtendMap = {}, tCollectionSelectionMap = [(A, [a])], isSelectionChanged = chg1\<rparr>"
    by (simp add: selectCaseAndChildren_def fuel la addSelectionToCollectionMap_def chg1_def
        del: caseAndChildren.simps(3))
  define c1 where "c1 = ctx\<lparr>collectionClients := (collectionClients ctx)
        (A \<mapsto> selectObjects [a] False clA)\<rparr>"
  have a1: "applyToCases fuel True False [a] ctx =
      Some (\<lparr>tCollectionExtendMap = {A}, tCollectionSelectionMap = [(A, [a])], isSelectionChanged = chg1\<rparr>, c1)"
    using select_one_entry [OF assms(2)] by (simp add: applyToCases_def v1 c1_def)
  define ctx2 where "ctx2 = (if chg1 then deselectOthers False {A} c1 else c1)"
  have d1: "doSelectCases fuel (iChange\<lparr>cases := Some [a]\<rparr>) ctx =
          Some (\<lparr>success = True, caseIDs = None, caseID = None\<rparr>, iChange\<lparr>cases := Some [a]\<rparr>, ctx2)"
    using assms(12,13) by (simp add: doSelectCases_def t1 a1 ctx2_def)
  have sel1: "selectionOf ctx2 A = {|a|} \<and>
        selectionOf ctx2 B =
          (if a |\<notin>| selection clA \<or> 1 < fcard (selection clA) then {||} else selection clB)"
    using assms(1,3,10,11)
    by (simp add: ctx2_def deselectOthers_selection)
      (auto simp: selectionOf_def c1_def selectObjects_def chg1_def selectionChanges_def)
  show ?thesis
    using e d2 sel2 d1 sel1 by blast
qed

lemma townSelected_facts:
"collectionClients townSelected 2 = Some (people\<lparr>selection := {|11|}\<rparr>)"
  "collectionClients townSelected 1 = Some (families\<lparr>casesController := [10, 20], selection := {|20|}\<rparr>)"
  "caseObjects townSelected 12 =
     Some \<lparr>collection = 2, parent = Some 10, children = [],
           valuesMap = [(1, StrV ''Smith''), (2, StrV ''Bob'')], isDestroyed = False\<rparr>"
  "caseObjects townSelected 20 =
     Some \<lparr>collection = 1, parent = None, children = [],
           valuesMap = [(1, StrV ''Jones'')], isDestroyed = False\<rparr>"
  "collections townSelected = [1, 2]"
  "selectionChangeCount townSelected = 1"
  by (simp_all add: townSelected_def withSelections_def townContext_def exampleContext_def
      people_def families_def)

lemma select_extend_semantics_example:
  "(\<exists>ctx1. doSelectCases 2 (exampleChange\<lparr>cases := Some [12, 20]\<rparr>) townSelected =
        Some (\<lparr>success = True, caseIDs = None, caseID = None\<rparr>,
              exampleChange\<lparr>cases := Some [12, 20]\<rparr>, ctx1) \<and>
      selectionOf ctx1 2 = {|12|} \<and> selectionOf ctx1 1 = {|20|}) \<and>
   (\<exists>ctx2. doSelectCases 2 (exampleChange\<lparr>cases := Some [12]\<rparr>) townSelected =
        Some (\<lparr>success = True, caseIDs = None, caseID = None\<rparr>,
              exampleChange\<lparr>cases := Some [12]\<rparr>, ctx2) \<and>
      selectionOf ctx2 2 = {|12|} \<and> selectionOf ctx2 1 = {||})"
proof -
  have t: "selectTarget exampleChange townSelected \<noteq> None"
    by (simp add: selectTarget_def exampleChange_def)
  have s: "select exampleChange" "\<not> extendFlag exampleChange"
    by (simp_all add: exampleChange_def)
  show ?thesis
    using select_extend_semantics [OF _ townSelected_facts(1,2) townSelected_facts(3) _ _
        townSelected_facts(4) _ _ _ _ s t, of 2 False 1 "{}" "{}"]
    by (simp add: townSelected_facts people_def)
qed

text \<open>
  C4. A second, separate call of \<open>doSelectCases\<close> without \<open>extend\<close> on one
  collection should clear the selection of the other collections; the comment above the
  last loop of \<open>doSelectCases\<close> says so of the parent level. The loop runs under
  \<open>if( isSelectionChanged)\<close> only. One call selects Ann (case 11, People) and the
  family 20 (Families) without \<open>extend\<close>, and both selections stand. A second call
  then selects Ann alone without \<open>extend\<close>: Ann is the only selected case of People,
  the flag stays \<open>false\<close>, and the call returns with the context as it was, so that
  Families still has the family 20 selected.
\<close>

theorem second_select_keeps_other_collection:
  "doSelectCases 2 (exampleChange\<lparr>cases := Some [11, 20]\<rparr>) townContext =
     Some (\<lparr>success = True, caseIDs = None, caseID = None\<rparr>,
           exampleChange\<lparr>cases := Some [11, 20]\<rparr>, townSelected) \<and>
   doSelectCases 2 (exampleChange\<lparr>cases := Some [11]\<rparr>) townSelected =
     Some (\<lparr>success = True, caseIDs = None, caseID = None\<rparr>,
           exampleChange\<lparr>cases := Some [11]\<rparr>, townSelected) \<and>
   selectionOf townSelected 1 = {|20|}"
  by (simp add: exampleChange_def townContext_def exampleContext_def withSelections_def
      townSelected_def selectionOf_def select_defs lookup_defs Let_def numeral_2_eq_2
      fun_eq_iff fcard_finsert_if)

section \<open>Selecting cases: the count of selection changes\<close>





































section \<open>Deleting: every case is destroyed once\<close>

lemma removeChild_lookup:
  "removeChild p x objs i =
     (case objs i of
        None \<Rightarrow> None
      | Some c \<Rightarrow> Some (if p = Some i then c\<lparr>children := remove1 x (children c)\<rparr> else c))"
  by (cases p; cases "objs i") (auto simp: removeChild_def split: option.splits)

lemma deleteCase_lookup:
  assumes "caseObjects ctx x = Some c" and "caseObjects (deleteCase x ctx) i = Some c'"
  shows "\<exists>c0. caseObjects ctx i = Some c0 \<and> set (children c') \<subseteq> set (children c0) \<and>
     isDestroyed c' = (isDestroyed c0 \<or> i = x)"
proof -
  define d where "d = (if i = x then c\<lparr>isDestroyed := True, valuesMap := []\<rparr> else the (caseObjects ctx i))"
  have ex: "caseObjects ctx i \<noteq> None"
    using assms by (auto simp: deleteCase_def removeChild_lookup split: option.splits if_splits)
  have c': "c' = (if parent c = Some i then d\<lparr>children := remove1 x (children d)\<rparr> else d)"
    using assms ex by (auto simp: deleteCase_def removeChild_lookup d_def split: if_splits)
  obtain c0 where c0: "caseObjects ctx i = Some c0" using ex by blast
  have "set (children d) \<subseteq> set (children c0)"
    using c0 assms(1) by (auto simp: d_def)
  moreover have "set (children c') \<subseteq> set (children d)"
    using set_remove1_subset [of x "children d"] by (auto simp: c')
  moreover have "isDestroyed c' = (isDestroyed c0 \<or> i = x)"
    using c0 assms(1) by (auto simp: c' d_def)
  ultimately show ?thesis using c0 by blast
qed

lemma deleteCase_dom:
  assumes "caseObjects ctx x = Some c"
  shows "(caseObjects (deleteCase x ctx) i = None) = (caseObjects ctx i = None)"
  using assms by (auto simp: deleteCase_def removeChild_lookup split: option.splits)

lemma deleteCase_destroyed:
  assumes "caseObjects ctx x = Some c"
  shows "destroyedIn (deleteCase x ctx) i = (destroyedIn ctx i \<or> i = x)"
proof (cases "caseObjects (deleteCase x ctx) i")
  case None
  then have "caseObjects ctx i = None" using deleteCase_dom [OF assms] by simp
  then show ?thesis using None assms by (auto simp: destroyedIn_def)
next
  case (Some c')
  then show ?thesis
    using deleteCase_lookup [OF assms Some] by (auto simp: destroyedIn_def)
qed

lemma deleteCase_ranked:
  assumes "rankedChildren rank ctx"
  shows "rankedChildren rank (deleteCase x ctx)"
proof (cases "caseObjects ctx x")
  case None
  then show ?thesis using assms by (simp add: deleteCase_def)
next
  case (Some c)
  show ?thesis
    unfolding rankedChildren_def
  proof (intro allI impI ballI)
    fix i c' k
    assume l: "caseObjects (deleteCase x ctx) i = Some c'" and k: "k \<in> set (children c')"
    obtain c0 where c0: "caseObjects ctx i = Some c0" and sub: "set (children c') \<subseteq> set (children c0)"
      using deleteCase_lookup [OF Some l] by blast
    then show "rank k < rank i"
      using assms k unfolding rankedChildren_def by blast
  qed
qed


lemma delete_invariant:
  "deleteCaseAndChildren fuel x st = Some st' \<Longrightarrow> deleteInv rank ctx0 st
     \<Longrightarrow> deleteInv rank ctx0 st' \<and>
         (\<exists>new. delIds st' = delIds st @ new \<and> (\<forall>i \<in> set new. rank i \<le> rank x))"
  "deleteChildren fuel x n st = Some st' \<Longrightarrow> deleteInv rank ctx0 st
     \<Longrightarrow> deleteInv rank ctx0 st' \<and>
         (\<exists>new. delIds st' = delIds st @ new \<and> (\<forall>i \<in> set new. rank i < rank x))"
proof (induction fuel x st and fuel x n st arbitrary: st' and st'
    rule: deleteCaseAndChildren_deleteChildren.induct)
  case (1 iCase st)
  then show ?case by simp
next
  case (2 fuel iCase st)
  from "2.prems"(1) obtain c where c: "caseObjects (delContext st) iCase = Some c"
    by (auto split: option.splits)
  show ?case
  proof (cases "isDestroyed c")
    case True
    then have "st' = st" using "2.prems"(1) c by simp
    then show ?thesis using "2.prems"(2) by simp
  next
    case False
    from "2.prems"(1) c False obtain st1 where
      d: "deleteChildren fuel iCase (length (children c)) st = Some st1"
      by (auto split: option.splits)
    from "2.IH" [OF c False d "2.prems"(2)] obtain new where
      inv1: "deleteInv rank ctx0 st1" and ids1: "delIds st1 = delIds st @ new"
      and new: "\<forall>i \<in> set new. rank i < rank iCase"
      by blast
    from "2.prems"(1) c False d obtain c1 tCollection where
      c1: "caseObjects (delContext st1) iCase = Some c1"
      and st': "st' = st1\<lparr>delIds := delIds st1 @ [iCase],
                 deletedCases := deletedCases st1 @
                   [\<lparr>oldCase = iCase, oldValues = valuesMap c1,
                     oldIndex = caseIDToIndexMap (delContext st1) (collection c1) iCase\<rparr>],
                 delContext := deleteCase iCase (delContext st1),
                 delCollectionIDs :=
                   (if tCollection \<in> set (delCollectionIDs st1)
                    then delCollectionIDs st1
                    else delCollectionIDs st1 @ [tCollection])\<rparr>"
      by (auto split: option.splits)
    have nd: "\<not> destroyedIn (delContext st) iCase"
      using c False by (simp add: destroyedIn_def)
    have notnew: "iCase \<notin> set new" using new by auto
    have notin: "iCase \<notin> set (delIds st1)"
      using "2.prems"(2) nd notnew unfolding deleteInv_def ids1 by auto
    have nd0: "\<not> destroyedIn ctx0 iCase"
      using "2.prems"(2) nd unfolding deleteInv_def by blast
    have "deleteInv rank ctx0 st'"
      using inv1 notin nd0 unfolding deleteInv_def st'
      by (simp add: deleteCase_ranked deleteCase_destroyed [OF c1]) blast
    moreover have "delIds st' = delIds st @ (new @ [iCase])"
      by (simp add: st' ids1)
    moreover have "\<forall>i \<in> set (new @ [iCase]). rank i \<le> rank iCase"
      using new by auto
    ultimately show ?thesis by blast
  qed
next
  case (3 fuel iCase st)
  then show ?case by simp
next
  case (4 fuel iCase ix st)
  from "4.prems"(1) obtain c where c: "caseObjects (delContext st) iCase = Some c"
    by (auto split: option.splits)
  from "4.prems"(1) c have lt: "ix < length (children c)"
    by (auto split: if_splits)
  from "4.prems"(1) c lt obtain st1 where
    d: "deleteCaseAndChildren fuel (children c ! ix) st = Some st1"
    and r: "deleteChildren fuel iCase ix st1 = Some st'"
    by (auto split: option.splits)
  have rk: "rank (children c ! ix) < rank iCase"
    using "4.prems"(2) c lt unfolding deleteInv_def rankedChildren_def
    by (meson nth_mem)
  from "4.IH"(1) [OF c lt d "4.prems"(2)] obtain new1 where
    inv1: "deleteInv rank ctx0 st1" and ids1: "delIds st1 = delIds st @ new1"
    and new1: "\<forall>i \<in> set new1. rank i \<le> rank (children c ! ix)"
    by blast
  from "4.IH"(2) [OF c lt d r inv1] obtain new2 where
    inv2: "deleteInv rank ctx0 st'" and ids2: "delIds st' = delIds st1 @ new2"
    and new2: "\<forall>i \<in> set new2. rank i < rank iCase"
    by blast
  have "delIds st' = delIds st @ (new1 @ new2)"
    by (simp add: ids1 ids2)
  moreover have "\<forall>i \<in> set (new1 @ new2). rank i < rank iCase"
    using new1 new2 rk by auto
  ultimately show ?case using inv2 by blast
qed

lemma deleteEach_invariant:
  "deleteEach fuel cs st = Some st' \<Longrightarrow> deleteInv rank ctx0 st \<Longrightarrow> deleteInv rank ctx0 st'"
proof (induction cs arbitrary: st)
  case Nil
  then show ?case by simp
next
  case (Cons a cs)
  then obtain st1 where d: "deleteCaseAndChildren fuel a st = Some st1"
    and r: "deleteEach fuel cs st1 = Some st'"
    by (auto split: option.splits)
  show ?case
    using delete_invariant(1) [OF d Cons.prems(2)] Cons.IH [OF r] by blast
qed

text \<open>C10. A delete change whose case list names an ancestor together with one of its
  descendants, or the same case twice, destroys every case at most once: whenever
  \<^const>\<open>doDeleteCases\<close> returns, the list of deleted IDs it records in the change has no
  repetition, none of the recorded cases was destroyed before the call, the cases destroyed
  afterwards are exactly those destroyed before together with the recorded ones, and the undo
  data pushed with the command lists the same cases in the same order. The hierarchy is
  assumed acyclic (a rank decreases from a case to its children).\<close>

theorem deleteCases_destroys_once:
  assumes "rankedChildren rank ctx"
    and "doDeleteCases fuel iChange ctx = Some (res, ch, ctx')"
  shows "distinct (ids ch) \<and>
     (\<forall>i. destroyedIn ctx' i = (destroyedIn ctx i \<or> i \<in> set (ids ch))) \<and>
     (\<forall>i \<in> set (ids ch). \<not> destroyedIn ctx i) \<and>
     (\<exists>cmd rest. undoStack ctx' = cmd # rest \<and> map oldCase (undoData cmd) = ids ch)"
proof -
  let ?st0 = "\<lparr>delContext = ctx, delIds = [], delCollectionIDs = [], deletedCases = []\<rparr>"
  obtain cs st where
    d: "deleteEach fuel cs ?st0 = Some st"
    and ch: "ch = iChange\<lparr>ids := delIds st, collectionIDs := delCollectionIDs st\<rparr>"
    and ctx': "ctx' = (delContext st)\<lparr>undoStack :=
         \<lparr>commandName = ''data.deleteCases'', commandChange = ch,
           undoData = deletedCases st, oldCaseToNewCaseMap = []\<rparr> # undoStack (delContext st),
         dirtyCount := Suc (dirtyCount (delContext st))\<rparr>"
    using assms(2)
    by (auto simp: doDeleteCases_def Let_def split: option.splits)
  have "deleteInv rank ctx ?st0"
    using assms(1) by (simp add: deleteInv_def)
  then have inv: "deleteInv rank ctx st"
    using deleteEach_invariant [OF d] by blast
  have dctx: "destroyedIn ctx' i = destroyedIn (delContext st) i" for i
    by (simp add: ctx' destroyedIn_def)
  have i1: "distinct (ids ch)" using inv by (simp add: ch deleteInv_def)
  have i2: "\<forall>i. destroyedIn ctx' i = (destroyedIn ctx i \<or> i \<in> set (ids ch))"
    using inv by (simp add: ch deleteInv_def dctx)
  have i4: "\<exists>cmd rest. undoStack ctx' = cmd # rest \<and> map oldCase (undoData cmd) = ids ch"
    using inv by (simp add: ctx' ch deleteInv_def)
  have i3: "\<forall>i \<in> set (ids ch). \<not> destroyedIn ctx i"
    using inv by (simp add: ch deleteInv_def)
  show ?thesis
    using i1 i2 i3 i4 by blast
qed

lemmas delete_defs =
  doDeleteCases_def deleteCase_def removeChild_def caseIDToIndexMap_def

lemma deleteFamilyAndAnn_run:
  "\<exists>res ctx'. doDeleteCases 2 deleteFamilyAndAnn exampleContext =
      Some (res, deleteFamilyAndAnn\<lparr>ids := [11, 13, 12, 10], collectionIDs := [2, 1]\<rparr>, ctx')"
  by (simp add: deleteFamilyAndAnn_def exampleChange_def exampleContext_def delete_defs
      lookup_defs Let_def numeral_2_eq_2)

theorem deleteCases_destroys_once_witness:
  "\<exists>res ctx'. doDeleteCases 2 deleteFamilyAndAnn exampleContext =
      Some (res, deleteFamilyAndAnn\<lparr>ids := [11, 13, 12, 10], collectionIDs := [2, 1]\<rparr>, ctx') \<and>
     distinct [11, 13, 12, 10::nat] \<and>
     destroyedIn ctx' 10 \<and> destroyedIn ctx' 11 \<and> destroyedIn ctx' 12 \<and> destroyedIn ctx' 13"
proof -
  obtain res ctx' where d: "doDeleteCases 2 deleteFamilyAndAnn exampleContext =
      Some (res, deleteFamilyAndAnn\<lparr>ids := [11, 13, 12, 10], collectionIDs := [2, 1]\<rparr>, ctx')"
    using deleteFamilyAndAnn_run by blast
  have r: "rankedChildren (\<lambda>i. if i = 10 then 1 else 0) exampleContext"
    by (simp add: rankedChildren_def exampleContext_def)
  show ?thesis
    using deleteCases_destroys_once [OF r d] d by simp
qed

section \<open>Deleting: the trace of the recursion\<close>

lemma getCaseByID_iff:
  "(getCaseByID ctx i = Some c) = (caseObjects ctx i = Some c \<and> \<not> isDestroyed c)"
  by (auto simp: getCaseByID_def storeFind_def split: option.splits if_splits)

lemma getCaseByID_destroyedIn:
  "caseObjects ctx i = Some c \<Longrightarrow> (getCaseByID ctx i = Some c) = (\<not> destroyedIn ctx i)"
  by (simp add: getCaseByID_iff destroyedIn_def)

lemma deleteCase_live:
  assumes "getCaseByID ctx x = Some cx"
  shows "getCaseByID (deleteCase x ctx) i =
     (if i = x then None
      else map_option (\<lambda>c. if parent cx = Some i then c\<lparr>children := remove1 x (children c)\<rparr> else c)
             (getCaseByID ctx i))"
  using assms
  by (auto simp: getCaseByID_def storeFind_def deleteCase_def removeChild_lookup
      split: option.splits if_splits)

lemma deleteCase_clients:
  assumes "caseObjects ctx x = Some cx"
  shows "collectionClients (deleteCase x ctx) cid =
     (if cid = collection cx
      then map_option (\<lambda>cl. cl\<lparr>casesController := remove1 x (casesController cl)\<rparr>)
             (collectionClients ctx cid)
      else collectionClients ctx cid)"
  using assms by (auto simp: deleteCase_def split: option.splits)

lemma deleteCase_nextCaseID: "nextCaseID (deleteCase x ctx) = nextCaseID ctx"
  by (simp add: deleteCase_def split: option.splits)

lemma linked_deleteCase:
  assumes l: "linked ctx" and x: "getCaseByID ctx x = Some cx" and e: "children cx = []"
  shows "linked (deleteCase x ctx)"
proof -
  note live = deleteCase_live [OF x]
  have w1: "\<And>i c. getCaseByID ctx i = Some c \<Longrightarrow> distinct (children c) \<and>
          (\<forall>k \<in> set (children c). \<exists>kc. getCaseByID ctx k = Some kc \<and> parent kc = Some i)"
    using l unfolding linked_def by blast
  have w2: "\<And>k kc p. getCaseByID ctx k = Some kc \<Longrightarrow> parent kc = Some p \<Longrightarrow>
          (\<exists>pc. getCaseByID ctx p = Some pc \<and> k \<in> set (children pc))"
    using l unfolding linked_def by blast
  have nopar: "\<And>k kc. getCaseByID ctx k = Some kc \<Longrightarrow> parent kc \<noteq> Some x"
  proof
    fix k kc assume "getCaseByID ctx k = Some kc" and "parent kc = Some x"
    from w2 [OF this] x e show False by auto
  qed
  show ?thesis
    unfolding linked_def
  proof (rule conjI; intro allI impI)
    fix i c
    assume a: "getCaseByID (deleteCase x ctx) i = Some c"
    then have ix: "i \<noteq> x" by (auto simp: live split: if_splits)
    from a ix obtain c0 where c0: "getCaseByID ctx i = Some c0"
      and c: "c = (if parent cx = Some i then c0\<lparr>children := remove1 x (children c0)\<rparr> else c0)"
      by (auto simp: live)
    have d0: "distinct (children c0)" using w1 [OF c0] by simp
    show "distinct (children c) \<and>
          (\<forall>k \<in> set (children c). \<exists>kc. getCaseByID (deleteCase x ctx) k = Some kc \<and> parent kc = Some i)"
    proof (intro conjI ballI)
      show "distinct (children c)" using d0 by (simp add: c)
    next
      fix k assume k: "k \<in> set (children c)"
      have kin: "k \<in> set (children c0)"
        using k d0 by (auto simp: c split: if_splits)
      then obtain kc where kc: "getCaseByID ctx k = Some kc" and pk: "parent kc = Some i"
        using w1 [OF c0] by blast
      have kx: "k \<noteq> x"
      proof
        assume "k = x"
        then have "parent cx = Some i" using kc pk x by simp
        then show False using k d0 \<open>k = x\<close> by (simp add: c)
      qed
      let ?kc = "if parent cx = Some k then kc\<lparr>children := remove1 x (children kc)\<rparr> else kc"
      have "getCaseByID (deleteCase x ctx) k = Some ?kc" using kx kc by (simp add: live)
      moreover have "parent ?kc = Some i" using pk by simp
      ultimately show "\<exists>kc. getCaseByID (deleteCase x ctx) k = Some kc \<and> parent kc = Some i"
        by blast
    qed
  next
    fix k kc p
    assume a: "getCaseByID (deleteCase x ctx) k = Some kc \<and> parent kc = Some p"
    then have kx: "k \<noteq> x" by (auto simp: live split: if_splits)
    from a kx obtain k0 where k0: "getCaseByID ctx k = Some k0" and pk: "parent k0 = Some p"
      by (auto simp: live split: if_splits)
    from w2 [OF k0 pk] obtain pc where pc: "getCaseByID ctx p = Some pc" and kin: "k \<in> set (children pc)"
      by blast
    have px: "p \<noteq> x" using nopar [OF k0] pk by auto
    let ?pc = "if parent cx = Some p then pc\<lparr>children := remove1 x (children pc)\<rparr> else pc"
    have "getCaseByID (deleteCase x ctx) p = Some ?pc" using px pc by (simp add: live)
    moreover have "k \<in> set (children ?pc)" using kin kx by simp
    ultimately show "\<exists>pc. getCaseByID (deleteCase x ctx) p = Some pc \<and> k \<in> set (children pc)"
      by blast
  qed
qed

lemma deletions_append:
  "deletions ctx (ds @ [d]) = (deletions ctx ds \<and> deletable (deleteAll ds ctx) d)"
  by (induction ds arbitrary: ctx) (auto simp: deleteAll_def)

lemma deleteAll_append: "deleteAll (ds @ [d]) ctx = deleteCase (oldCase d) (deleteAll ds ctx)"
  by (simp add: deleteAll_def)

lemma shrunk_refl: "shrunk ctx ctx"
  by (simp add: shrunk_def)

lemma shrunk_trans: "shrunk a b \<Longrightarrow> shrunk b c \<Longrightarrow> shrunk a c"
  unfolding shrunk_def by (meson subset_trans)

lemma shrunk_deleteCase:
  assumes "caseObjects ctx x = Some c"
  shows "shrunk ctx (deleteCase x ctx)"
  unfolding shrunk_def
proof (intro allI impI)
  fix z zc assume z: "caseObjects ctx z = Some zc"
  then have "caseObjects (deleteCase x ctx) z \<noteq> None"
    using deleteCase_dom [OF assms, of z] by simp
  then obtain zc' where zc': "caseObjects (deleteCase x ctx) z = Some zc'" by blast
  from deleteCase_lookup [OF assms zc'] z
  show "\<exists>zc'. caseObjects (deleteCase x ctx) z = Some zc' \<and> set (children zc') \<subseteq> set (children zc)"
    using zc' by auto
qed


lemma delete_trace:
  "deleteCaseAndChildren fuel x st = Some st' \<Longrightarrow> deleteInv rank ctx0 st \<Longrightarrow> traced ctx0 st
     \<Longrightarrow> traced ctx0 st' \<and> shrunk (delContext st) (delContext st') \<and>
         destroyedIn (delContext st') x"
  "deleteChildren fuel x n st = Some st' \<Longrightarrow> deleteInv rank ctx0 st \<Longrightarrow> traced ctx0 st
     \<Longrightarrow> (\<exists>c. getCaseByID (delContext st) x = Some c \<and> length (children c) \<le> n)
     \<Longrightarrow> traced ctx0 st' \<and> shrunk (delContext st) (delContext st') \<and>
         (\<exists>c'. getCaseByID (delContext st') x = Some c' \<and> children c' = [])"
proof (induction fuel x st and fuel x n st arbitrary: st' and st'
    rule: deleteCaseAndChildren_deleteChildren.induct)
  case (1 iCase st)
  then show ?case by simp
next
  case (2 fuel iCase st)
  from "2.prems"(1) obtain c where c: "caseObjects (delContext st) iCase = Some c"
    by (auto split: option.splits)
  show ?case
  proof (cases "isDestroyed c")
    case True
    then have "st' = st" using "2.prems"(1) c by simp
    then show ?thesis using "2.prems"(3) c True by (simp add: shrunk_refl destroyedIn_def)
  next
    case False
    from "2.prems"(1) c False obtain st1 where
      d: "deleteChildren fuel iCase (length (children c)) st = Some st1"
      by (auto split: option.splits)
    have live: "\<exists>c0. getCaseByID (delContext st) iCase = Some c0 \<and> length (children c0) \<le> length (children c)"
      using c False by (simp add: getCaseByID_iff)
    from "2.IH" [OF c False d "2.prems"(2) "2.prems"(3) live] obtain c1 where
      t1: "traced ctx0 st1" and s1: "shrunk (delContext st) (delContext st1)"
      and l1: "getCaseByID (delContext st1) iCase = Some c1" and e1: "children c1 = []"
      by blast
    have o1: "caseObjects (delContext st1) iCase = Some c1"
      using l1 by (simp add: getCaseByID_iff)
    from "2.prems"(1) c False d o1 obtain tCollection where
      st': "st' = st1\<lparr>delIds := delIds st1 @ [iCase],
                 deletedCases := deletedCases st1 @
                   [\<lparr>oldCase = iCase, oldValues = valuesMap c1,
                     oldIndex = caseIDToIndexMap (delContext st1) (collection c1) iCase\<rparr>],
                 delContext := deleteCase iCase (delContext st1),
                 delCollectionIDs :=
                   (if tCollection \<in> set (delCollectionIDs st1)
                    then delCollectionIDs st1
                    else delCollectionIDs st1 @ [tCollection])\<rparr>"
      by (auto split: option.splits)
    let ?d = "\<lparr>oldCase = iCase, oldValues = valuesMap c1,
                oldIndex = caseIDToIndexMap (delContext st1) (collection c1) iCase\<rparr>"
    have dl: "deletable (delContext st1) ?d"
      using l1 e1 by (simp add: deletable_def)
    have lk1: "linked (delContext st1)" and dl1: "deletions ctx0 (deletedCases st1)"
      and eq1: "deleteAll (deletedCases st1) ctx0 = delContext st1"
      using t1 unfolding traced_def by blast+
    have a1: "linked (deleteCase iCase (delContext st1))"
      by (rule linked_deleteCase [OF lk1 l1 e1])
    have a2: "deletions ctx0 (deletedCases st1 @ [?d])"
      unfolding deletions_append using dl1 dl eq1 by simp
    have a3: "deleteAll (deletedCases st1 @ [?d]) ctx0 = deleteCase iCase (delContext st1)"
      unfolding deleteAll_append using eq1 by simp
    have t': "traced ctx0 st'"
      unfolding traced_def st' using a1 a2 a3 by simp
    have "shrunk (delContext st1) (delContext st')"
      using shrunk_deleteCase [OF o1] by (simp add: st')
    then have s': "shrunk (delContext st) (delContext st')"
      using s1 shrunk_trans by blast
    have "destroyedIn (delContext st') iCase"
      by (simp add: st' deleteCase_destroyed [OF o1])
    then show ?thesis using t' s' by blast
  qed
next
  case (3 fuel iCase st)
  then show ?case
    by (auto simp: shrunk_refl)
next
  case (4 fuel iCase ix st)
  from "4.prems"(4) obtain c where l: "getCaseByID (delContext st) iCase = Some c"
    and le: "length (children c) \<le> Suc ix"
    by blast
  have c: "caseObjects (delContext st) iCase = Some c" and nd: "\<not> isDestroyed c"
    using l by (simp_all add: getCaseByID_iff)
  from "4.prems"(1) c have lt: "ix < length (children c)"
    by (auto split: if_splits)
  from "4.prems"(1) c lt obtain st1 where
    d: "deleteCaseAndChildren fuel (children c ! ix) st = Some st1"
    and r: "deleteChildren fuel iCase ix st1 = Some st'"
    by (auto split: option.splits)
  let ?y = "children c ! ix"
  have yin: "?y \<in> set (children c)" using lt by simp
  have rk: "rank ?y < rank iCase"
    using "4.prems"(2) c yin unfolding deleteInv_def rankedChildren_def by blast
  from delete_invariant(1) [OF d "4.prems"(2)] obtain new1 where
    inv1: "deleteInv rank ctx0 st1" and ids1: "delIds st1 = delIds st @ new1"
    and new1: "\<forall>i \<in> set new1. rank i \<le> rank ?y"
    by blast
  from "4.IH"(1) [OF c lt d "4.prems"(2) "4.prems"(3)] have
    t1: "traced ctx0 st1" and s1: "shrunk (delContext st) (delContext st1)"
    and dy: "destroyedIn (delContext st1) ?y"
    by blast+
  from s1 c obtain c1 where c1: "caseObjects (delContext st1) iCase = Some c1"
    and sub: "set (children c1) \<subseteq> set (children c)"
    unfolding shrunk_def by blast
  have "\<not> destroyedIn (delContext st) iCase" using c nd by (simp add: destroyedIn_def)
  then have "\<not> destroyedIn ctx0 iCase" and "iCase \<notin> set (delIds st)"
    using "4.prems"(2) unfolding deleteInv_def by blast+
  moreover have "iCase \<notin> set new1" using new1 rk by auto
  ultimately have "\<not> destroyedIn (delContext st1) iCase"
    using inv1 unfolding deleteInv_def ids1 by auto
  then have l1: "getCaseByID (delContext st1) iCase = Some c1"
    using c1 by (simp add: getCaseByID_destroyedIn)
  have lk1: "linked (delContext st1)" using t1 by (simp add: traced_def)
  have lk: "linked (delContext st)" using "4.prems"(3) by (simp add: traced_def)
  have d1: "distinct (children c1)" using lk1 l1 unfolding linked_def by blast
  have d0: "distinct (children c)" using lk l unfolding linked_def by blast
  have ynot: "?y \<notin> set (children c1)"
  proof
    assume "?y \<in> set (children c1)"
    then obtain kc where "getCaseByID (delContext st1) ?y = Some kc"
      using lk1 l1 unfolding linked_def by blast
    then show False using dy by (simp add: getCaseByID_iff destroyedIn_def)
  qed
  have "set (children c1) \<subseteq> set (children c) - {?y}" using sub ynot by auto
  then have "card (set (children c1)) \<le> card (set (children c) - {?y})"
    by (simp add: card_mono)
  then have "length (children c1) \<le> length (children c) - 1"
    using d1 d0 yin by (simp add: distinct_card)
  then have le1: "length (children c1) \<le> ix" using le by simp
  have live1: "\<exists>c. getCaseByID (delContext st1) iCase = Some c \<and> length (children c) \<le> ix"
    using l1 le1 by blast
  from "4.IH"(2) [OF c lt d r inv1 t1 live1] s1
  show ?case using shrunk_trans by blast
qed

lemma deleteEach_trace:
  "deleteEach fuel cs st = Some st' \<Longrightarrow> deleteInv rank ctx0 st \<Longrightarrow> traced ctx0 st
     \<Longrightarrow> traced ctx0 st'"
proof (induction cs arbitrary: st)
  case Nil
  then show ?case by simp
next
  case (Cons a cs)
  then obtain st1 where d: "deleteCaseAndChildren fuel a st = Some st1"
    and r: "deleteEach fuel cs st1 = Some st'"
    by (auto split: option.splits)
  show ?case
    using delete_invariant(1) [OF d Cons.prems(2)] delete_trace(1) [OF d Cons.prems(2) Cons.prems(3)]
      Cons.IH [OF r] by blast
qed

section \<open>Undoing a deletion\<close>

lemma newCaseFor_Cons: "newCaseFor ((x, n) # m) = (newCaseFor m)(x := n)"
  by (auto simp: newCaseFor_def)

lemma putProperty_last:
  "\<forall>k' \<in> set (map fst acc). k' < k \<Longrightarrow> putProperty k v acc = acc @ [(k, v)]"
  by (induction acc) auto

lemma fold_putProperty_sorted:
  "sorted_wrt (<) (map fst (acc @ kvs))
   \<Longrightarrow> fold (\<lambda>(a, v). putProperty a v) kvs acc = acc @ kvs"
proof (induction kvs arbitrary: acc)
  case Nil
  then show ?case by simp
next
  case (Cons kv kvs)
  obtain k v where kv: "kv = (k, v)" by (cases kv)
  have lt: "\<forall>k' \<in> set (map fst acc). k' < k"
    using Cons.prems by (auto simp: kv sorted_wrt_append)
  have p: "putProperty k v acc = acc @ [(k, v)]"
    using putProperty_last [OF lt] .
  have "sorted_wrt (<) (map fst ((acc @ [(k, v)]) @ kvs))"
    using Cons.prems by (simp add: kv)
  from Cons.IH [OF this] show ?case
    by (simp add: kv p)
qed

lemma fold_setValue:
  "fold (\<lambda>(a, v). setValue a v) kvs c
     = c\<lparr>valuesMap := fold (\<lambda>(a, v). putProperty a v) kvs (valuesMap c)\<rparr>"
  by (induction kvs arbitrary: c) (auto simp: setValue_def)

lemma zip_prefix:
  "map fst vm = take (length vm) attrs \<Longrightarrow> zip attrs (map snd vm) = vm"
proof (induction vm arbitrary: attrs)
  case Nil
  then show ?case by simp
next
  case (Cons kv vm)
  then show ?case by (cases attrs) auto
qed

lemma indexOf_member: "x \<in> set xs \<Longrightarrow> \<exists>k. indexOf x xs = Some k"
  by (induction xs) auto

lemma insertAt_member: "n \<in> set (insertAt k n xs)"
  by (auto simp: insertAt_def split: option.splits)

lemma newCaseOf_found:
  assumes "caseID r = Some n" and "n \<in> set xs"
  shows "newCaseOf r xs = Some n"
proof -
  have "n \<in> set (filter (\<lambda>i. Some i = caseID r) xs)" using assms by simp
  then obtain y ys where f: "filter (\<lambda>i. Some i = caseID r) xs = y # ys"
    by (cases "filter (\<lambda>i. Some i = caseID r) xs") auto
  then have "y \<in> set (filter (\<lambda>i. Some i = caseID r) xs)" by simp
  then have "y = n" using assms(1) by simp
  then show ?thesis using f by (simp add: newCaseOf_def)
qed

lemma insertAt_Cons:
  "insertAt (Some (Suc k)) n (a # xs) = a # insertAt (Some k) n xs"
  by (simp add: insertAt_def)

lemma list_restore:
  "distinct xs \<Longrightarrow> x \<in> set xs
   \<Longrightarrow> insertAt (indexOf x xs) n (map f (remove1 x xs)) = map (f(x := n)) xs"
proof (induction xs)
  case Nil
  then show ?case by simp
next
  case (Cons y ys)
  show ?case
  proof (cases "x = y")
    case True
    then have "x \<notin> set ys" using Cons.prems by simp
    then have "map (f(x := n)) ys = map f ys" by (induction ys) auto
    then show ?thesis using True by (simp add: insertAt_def)
  next
    case False
    then have xin: "x \<in> set ys" and d: "distinct ys" using Cons.prems by auto
    obtain k where k: "indexOf x ys = Some k"
      using indexOf_member [OF xin] by blast
    have e: "insertAt (Some k) n (map f (remove1 x ys)) = map (f(x := n)) ys"
      using Cons.IH [OF d xin] k by simp
    show ?thesis using False k e by (simp add: insertAt_Cons)
  qed
qed

lemma addChild_lookup:
  "addChild p n objs i =
     (case objs i of
        None \<Rightarrow> None
      | Some c \<Rightarrow> Some (if p = Some i then c\<lparr>children := children c @ [n]\<rparr> else c))"
  by (cases p; cases "objs i") (auto simp: addChild_def split: option.splits)

lemma undo_create:
  assumes cl: "collectionClients ctx cid = Some cl"
    and pn: "parentCase \<noteq> Some (nextCaseID ctx)"
  shows "\<exists>res ctx'.
     applyChange otherHandlers fuel (undoChange (Some cid) parentCase d) ctx = Some (Some res, ctx') \<and>
     caseID res = Some (nextCaseID ctx) \<and>
     nextCaseID ctx' = Suc (nextCaseID ctx) \<and>
     collectionClients ctx' = (collectionClients ctx)
        (cid \<mapsto> cl\<lparr>casesController := insertAt (oldIndex d) (nextCaseID ctx) (casesController cl)\<rparr>) \<and>
     (\<forall>i. caseObjects ctx' i =
        (if i = nextCaseID ctx
         then Some \<lparr>collection = cid, parent = parentCase, children = [],
                    valuesMap = fold (\<lambda>(a, v). putProperty a v)
                                  (zip (attributeIDs cl) (map snd (oldValues d))) [],
                    isDestroyed = False\<rparr>
         else if parentCase = Some i
              then map_option (\<lambda>c. c\<lparr>children := children c @ [nextCaseID ctx]\<rparr>) (caseObjects ctx i)
              else caseObjects ctx i))"
proof -
  define n where "n = nextCaseID ctx"
  define props where "props = \<lparr>parentRef = (case parentCase of None \<Rightarrow> ParentNull | Some p \<Rightarrow> ParentCase p),
                          index = oldIndex d\<rparr>"
  define newCase where "newCase = \<lparr>collection = cid, parent = parentCase, children = [],
                     valuesMap = [], isDestroyed = False\<rparr>"
  define cl1 where "cl1 = cl\<lparr>casesController := insertAt (oldIndex d) n (casesController cl)\<rparr>"
  define objs1 where "objs1 = addChild parentCase n ((caseObjects ctx)(n \<mapsto> newCase))"
  define ctx1 where "ctx1 = ctx\<lparr>caseObjects := objs1,
      collectionClients := (collectionClients ctx)(cid \<mapsto> cl1), nextCaseID := Suc n\<rparr>"
  define vals where "vals = map snd (oldValues d)"
  define nc where "nc = fold (\<lambda>(a, v). setValue a v) (zip (attributeIDs cl1) vals) newCase"
  define ctx2 where "ctx2 = ctx1\<lparr>caseObjects := (caseObjects ctx1)(n \<mapsto> nc)\<rparr>"
  define ch where "ch = (undoChange (Some cid) parentCase d)\<lparr>cellValues := Some [ArrayV vals]\<rparr>"
  define res where "res = \<lparr>success = True, caseIDs = Some [n], caseID = Some n\<rparr>"
  have po: "parentOf (parentRef props) = parentCase"
    by (cases parentCase) (simp_all add: props_def parentOf_def)
  have ob: "isObject (parentRef props)"
    by (cases parentCase) (simp_all add: props_def isObject_def)
  have ix: "index props = oldIndex d" by (simp add: props_def)
  have cc: "createCase cid props ctx = (n, ctx1)"
    using cl unfolding createCase_def Let_def po ix
    by (simp add: n_def newCase_def cl1_def objs1_def ctx1_def)
  have o1: "objs1 n = Some newCase"
    using pn by (simp add: objs1_def addChild_lookup n_def)
  have s: "setCaseValuesFromArray cid n vals ctx1 = ctx2"
    using o1 by (simp add: setCaseValuesFromArray_def ctx1_def ctx2_def nc_def)
  have one: "createOneCase cid props [] (ArrayV vals) ((False, []), ctx) = ((True, [n]), ctx2)"
    by (simp add: createOneCase_def cc s isNone_def)
  have all: "createAll cid props [] (Some [ArrayV vals]) ctx = (res, ctx2)"
    by (simp add: createAll_def one res_def)
  have dflt: "createCasesDefaults ch ctx = ch"
    by (simp add: createCasesDefaults_def ch_def undoChange_def)
  have pr: "propertiesOf ch = props"
    by (simp add: propertiesOf_def ch_def undoChange_def props_def)
  have rc: "resolveCollection ctx (targetCollection ch) = Some cid"
    by (simp add: resolveCollection_def ch_def undoChange_def)
  have cv: "cellValues ch = Some [ArrayV vals]" by (simp add: ch_def)
  have dc: "doCreateCases ch ctx = Some (res, ch, ctx2)"
    unfolding doCreateCases_def dflt Let_def pr rc
    using cl ob all cv by (simp add: checkParent_def)
  have chd: "(undoChange (Some cid) parentCase d)
       \<lparr>cellValues := Some [ArrayV (case cellValues (undoChange (Some cid) parentCase d) of
                                       Some vs \<Rightarrow> vs | None \<Rightarrow> [])]\<rparr> = ch"
    by (simp add: ch_def undoChange_def vals_def)
  have op: "operation (undoChange (Some cid) parentCase d) = CreateCase"
    and ic: "\<not> isComplete (undoChange (Some cid) parentCase d)"
    by (simp_all add: undoChange_def)
  have di: "dispatch otherHandlers fuel (undoChange (Some cid) parentCase d) ctx
      = Some (True, Some res, ch, ctx2)"
    unfolding dispatch_def op by (simp add: chd dc withResult_def)
  have pc: "performChange otherHandlers fuel (undoChange (Some cid) parentCase d) ctx
      = Some (Some res, ch, ctx2\<lparr>dirtyCount := Suc (dirtyCount ctx2)\<rparr>)"
    unfolding performChange_def using ic di by simp
  define ctx3 where "ctx3 = ctx2\<lparr>dirtyCount := Suc (dirtyCount ctx2)\<rparr>"
  define ctx4 where "ctx4 = ctx3\<lparr>changes := changes ctx3 @ [ch\<lparr>result := Some res\<rparr>],
                     priv_changeCount := Suc (priv_changeCount ctx3),
                     invokeLastQueue := Suc (invokeLastQueue ctx3)\<rparr>"
  have ac: "applyChange otherHandlers fuel (undoChange (Some cid) parentCase d) ctx = Some (Some res, ctx4)"
    unfolding applyChange_def pc by (simp add: ctx4_def ctx3_def)
  have a1: "attributeIDs cl1 = attributeIDs cl" by (simp add: cl1_def)
  have ncv: "nc = \<lparr>collection = cid, parent = parentCase, children = [],
                    valuesMap = fold (\<lambda>(a, v). putProperty a v)
                                  (zip (attributeIDs cl) vals) [],
                    isDestroyed = False\<rparr>"
    unfolding nc_def fold_setValue a1 by (simp add: newCase_def)
  have objs: "caseObjects ctx4 i =
        (if i = n then Some nc
         else if parentCase = Some i
              then map_option (\<lambda>c. c\<lparr>children := children c @ [n]\<rparr>) (caseObjects ctx i)
              else caseObjects ctx i)" for i
    by (cases "caseObjects ctx i")
      (simp_all add: ctx4_def ctx3_def ctx2_def ctx1_def objs1_def addChild_lookup)
  have "caseID res = Some n" by (simp add: res_def)
  moreover have "nextCaseID ctx4 = Suc n"
    by (simp add: ctx4_def ctx3_def ctx2_def ctx1_def)
  moreover have "collectionClients ctx4 = (collectionClients ctx)(cid \<mapsto> cl1)"
    by (simp add: ctx4_def ctx3_def ctx2_def ctx1_def)
  ultimately show ?thesis
    using ac objs unfolding ncv cl1_def n_def vals_def by blast
qed

lemma deleteCase_self:
  assumes "caseObjects ctx x = Some cx"
  shows "\<exists>c'. caseObjects (deleteCase x ctx) x = Some c' \<and> collection c' = collection cx \<and>
     parent c' = parent cx \<and> isDestroyed c'"
  using assms by (auto simp: deleteCase_def removeChild_lookup)

lemma deleteCase_other:
  assumes "caseObjects ctx x = Some cx" and "caseObjects ctx i = Some c" and "i \<noteq> x"
  shows "\<exists>c'. caseObjects (deleteCase x ctx) i = Some c' \<and> collection c' = collection c \<and>
     parent c' = parent c \<and> isDestroyed c' = isDestroyed c"
  using assms by (auto simp: deleteCase_def removeChild_lookup)

lemma listed_deleteCase:
  assumes ls: "listed ctx" and x: "getCaseByID ctx x = Some cx"
  shows "listed (deleteCase x ctx)"
proof -
  note live = deleteCase_live [OF x]
  have ox: "caseObjects ctx x = Some cx" using x by (simp add: getCaseByID_iff)
  note clients = deleteCase_clients [OF ox]
  have w3: "\<And>i c. getCaseByID ctx i = Some c \<Longrightarrow>
          (\<exists>cl. collectionClients ctx (collection c) = Some cl \<and> i \<in> set (casesController cl) \<and>
                sorted_wrt (<) (map fst (valuesMap c)) \<and>
                map fst (valuesMap c) = take (length (valuesMap c)) (attributeIDs cl))"
    using ls unfolding listed_def by blast
  have w4: "\<And>cid cl. collectionClients ctx cid = Some cl \<Longrightarrow>
          distinct (casesController cl) \<and>
          (\<forall>i \<in> set (casesController cl). \<exists>c. getCaseByID ctx i = Some c \<and> collection c = cid)"
    using ls unfolding listed_def by blast
  show ?thesis
    unfolding listed_def
  proof (rule conjI; intro allI impI)
    fix i c
    assume a: "getCaseByID (deleteCase x ctx) i = Some c"
    then have ix: "i \<noteq> x" by (auto simp: live split: if_splits)
    from a ix obtain c0 where c0: "getCaseByID ctx i = Some c0"
      and c: "c = (if parent cx = Some i then c0\<lparr>children := remove1 x (children c0)\<rparr> else c0)"
      by (auto simp: live)
    have cc: "collection c = collection c0" and vv: "valuesMap c = valuesMap c0"
      by (simp_all add: c)
    from w3 [OF c0] obtain cl where cl: "collectionClients ctx (collection c0) = Some cl"
      and iin: "i \<in> set (casesController cl)"
      and srt: "sorted_wrt (<) (map fst (valuesMap c0))"
      and pre: "map fst (valuesMap c0) = take (length (valuesMap c0)) (attributeIDs cl)"
      by blast
    let ?cl = "if collection c0 = collection cx
               then cl\<lparr>casesController := remove1 x (casesController cl)\<rparr> else cl"
    have "collectionClients (deleteCase x ctx) (collection c) = Some ?cl"
      using cl by (cases "collection c0 = collection cx") (auto simp: clients cc)
    moreover have "i \<in> set (casesController ?cl)" using iin ix by simp
    moreover have "attributeIDs ?cl = attributeIDs cl" by simp
    ultimately show "\<exists>cl. collectionClients (deleteCase x ctx) (collection c) = Some cl \<and>
        i \<in> set (casesController cl) \<and> sorted_wrt (<) (map fst (valuesMap c)) \<and>
        map fst (valuesMap c) = take (length (valuesMap c)) (attributeIDs cl)"
      using srt pre unfolding vv by metis
  next
    fix cid cl1
    assume a: "collectionClients (deleteCase x ctx) cid = Some cl1"
    then obtain cl where cl: "collectionClients ctx cid = Some cl"
      and cl1: "cl1 = (if cid = collection cx
                       then cl\<lparr>casesController := remove1 x (casesController cl)\<rparr> else cl)"
      by (auto simp: clients split: if_splits)
    have d: "distinct (casesController cl)" using w4 [OF cl] by simp
    show "distinct (casesController cl1) \<and>
          (\<forall>i \<in> set (casesController cl1).
              \<exists>c. getCaseByID (deleteCase x ctx) i = Some c \<and> collection c = cid)"
    proof (intro conjI ballI)
      show "distinct (casesController cl1)" using d by (simp add: cl1)
    next
      fix i assume i: "i \<in> set (casesController cl1)"
      then have iin: "i \<in> set (casesController cl)"
        using d by (auto simp: cl1 split: if_splits)
      then obtain c0 where c0: "getCaseByID ctx i = Some c0" and cc: "collection c0 = cid"
        using w4 [OF cl] by blast
      have ix: "i \<noteq> x"
      proof
        assume e: "i = x"
        then have "cid = collection cx" using c0 cc x by simp
        then show False using i d e by (simp add: cl1)
      qed
      let ?c = "if parent cx = Some i then c0\<lparr>children := remove1 x (children c0)\<rparr> else c0"
      have "getCaseByID (deleteCase x ctx) i = Some ?c" using ix c0 by (simp add: live)
      moreover have "collection ?c = cid" using cc by simp
      ultimately show "\<exists>c. getCaseByID (deleteCase x ctx) i = Some c \<and> collection c = cid"
        by blast
    qed
  qed
qed

lemma undo_step:
  assumes lk: "linked D" and ls: "listed D" and dl: "deletable D d"
    and R: "restored (newCaseFor m) (deleteCase (oldCase d) D) U"
    and K: "kept (deleteCase (oldCase d) D) U"
  shows "\<exists>U'. undoOneCase otherHandlers fuel d (m, U) = Some ((oldCase d, nextCaseID U) # m, U') \<and>
     nextCaseID U' = Suc (nextCaseID U) \<and>
     restored (newCaseFor ((oldCase d, nextCaseID U) # m)) D U' \<and> kept D U'"
proof -
  define x where "x = oldCase d"
  define n where "n = nextCaseID U"
  define f1 where "f1 = newCaseFor m"
  define f where "f = f1(x := n)"
  define D1 where "D1 = deleteCase x D"
  have ff: "newCaseFor ((x, n) # m) = f" by (simp add: newCaseFor_Cons f_def f1_def)
  from dl obtain cx where lx: "getCaseByID D x = Some cx" and ex: "children cx = []"
    and ov: "oldValues d = valuesMap cx"
    and oi: "oldIndex d = caseIDToIndexMap D (collection cx) x"
    unfolding deletable_def x_def by (auto split: option.splits)
  have ox: "caseObjects D x = Some cx" and ndx: "\<not> isDestroyed cx"
    using lx by (simp_all add: getCaseByID_iff)
  have w1: "\<And>i c. getCaseByID D i = Some c \<Longrightarrow> distinct (children c) \<and>
          (\<forall>k \<in> set (children c). \<exists>kc. getCaseByID D k = Some kc \<and> parent kc = Some i)"
    using lk unfolding linked_def by blast
  have w2: "\<And>k kc p. getCaseByID D k = Some kc \<Longrightarrow> parent kc = Some p \<Longrightarrow>
          (\<exists>pc. getCaseByID D p = Some pc \<and> k \<in> set (children pc))"
    using lk unfolding linked_def by blast
  have w3: "\<And>i c. getCaseByID D i = Some c \<Longrightarrow>
          (\<exists>cl. collectionClients D (collection c) = Some cl \<and> i \<in> set (casesController cl) \<and>
                sorted_wrt (<) (map fst (valuesMap c)) \<and>
                map fst (valuesMap c) = take (length (valuesMap c)) (attributeIDs cl))"
    using ls unfolding listed_def by blast
  have w4: "\<And>cid cl. collectionClients D cid = Some cl \<Longrightarrow>
          distinct (casesController cl) \<and>
          (\<forall>i \<in> set (casesController cl). \<exists>c. getCaseByID D i = Some c \<and> collection c = cid)"
    using ls unfolding listed_def by blast
  have nopar: "\<And>k kc. getCaseByID D k = Some kc \<Longrightarrow> parent kc \<noteq> Some x"
  proof
    fix k kc assume "getCaseByID D k = Some kc" and "parent kc = Some x"
    from w2 [OF this] lx ex show False by auto
  qed
  from w3 [OF lx] obtain cl where clD: "collectionClients D (collection cx) = Some cl"
    and xin: "x \<in> set (casesController cl)"
    and srt: "sorted_wrt (<) (map fst (valuesMap cx))"
    and pre: "map fst (valuesMap cx) = take (length (valuesMap cx)) (attributeIDs cl)"
    by blast
  have dcl: "distinct (casesController cl)" using w4 [OF clD] by simp
  have live1: "getCaseByID D1 i =
     (if i = x then None
      else map_option (\<lambda>c. if parent cx = Some i then c\<lparr>children := remove1 x (children c)\<rparr> else c)
             (getCaseByID D i))" for i
    unfolding D1_def by (rule deleteCase_live [OF lx])
  have clients1: "collectionClients D1 cid =
     (if cid = collection cx
      then map_option (\<lambda>cl. cl\<lparr>casesController := remove1 x (casesController cl)\<rparr>)
             (collectionClients D cid)
      else collectionClients D cid)" for cid
    unfolding D1_def by (rule deleteCase_clients [OF ox])
  have r1: "\<And>cid. collectionClients U cid =
          map_option (\<lambda>cl. cl\<lparr>casesController := map f1 (casesController cl)\<rparr>)
            (collectionClients D1 cid)"
    and r2: "\<And>i c. getCaseByID D1 i = Some c \<Longrightarrow>
          (\<exists>c'. getCaseByID U (f1 i) = Some c' \<and> collection c' = collection c \<and>
                parent c' = map_option f1 (parent c) \<and> valuesMap c' = valuesMap c \<and>
                set (children c') = f1 ` set (children c))"
    and r3: "\<And>i j ci cj. getCaseByID D1 i = Some ci \<Longrightarrow> getCaseByID D1 j = Some cj \<Longrightarrow> f1 i = f1 j
          \<Longrightarrow> i = j"
    using R unfolding restored_def f1_def D1_def x_def by blast+
  have k1: "\<And>i c. caseObjects D1 i = Some c \<Longrightarrow> isDestroyed c \<Longrightarrow>
          (\<exists>c'. caseObjects U i = Some c' \<and> collection c' = collection c \<and> parent c' = parent c)"
    and k2: "\<And>i. n \<le> i \<Longrightarrow> caseObjects U i = None"
    using K unfolding kept_def storeBound_def D1_def x_def n_def by blast+
  have below: "i < n" if "caseObjects U i = Some c" for i c
    using k2 [of i] that by (cases "n \<le> i") auto
  have below1: "f1 i < n" if "getCaseByID D1 i = Some c" for i c
  proof -
    from r2 [OF that] obtain c' where "getCaseByID U (f1 i) = Some c'" by blast
    then have "caseObjects U (f1 i) = Some c'" by (simp add: getCaseByID_iff)
    then show ?thesis by (rule below)
  qed
  have other1: "getCaseByID D1 i = Some (if parent cx = Some i
        then c\<lparr>children := remove1 x (children c)\<rparr> else c)"
    if "getCaseByID D i = Some c" and "i \<noteq> x" for i c
    using that by (simp add: live1)
  \<comment> \<open>the old case object, as the undo reads it\<close>
  obtain cxd where cxd: "caseObjects D1 x = Some cxd" and "collection cxd = collection cx"
    and "parent cxd = parent cx" and "isDestroyed cxd"
    using deleteCase_self [OF ox] unfolding D1_def by blast
  then obtain cxU where cxU: "caseObjects U x = Some cxU" and cU: "collection cxU = collection cx"
    and pU: "parent cxU = parent cx"
    using k1 [OF cxd] by auto
  define clU where "clU = cl\<lparr>casesController := map f1 (remove1 x (casesController cl))\<rparr>"
  have clUs: "collectionClients U (collection cx) = Some clU"
    by (simp add: r1 clients1 clD clU_def)
  have gc: "getCollectionForCase U cxU = Some (collection cx)"
    by (simp add: getCollectionForCase_def getCollectionByID_def cU clUs)
  define pc where "pc = map_option f1 (parent cx)"
  have px: "parent cx \<noteq> Some x" using nopar [OF lx] .
  have pcn: "pc \<noteq> Some n"
  proof (cases "parent cx")
    case None
    then show ?thesis by (simp add: pc_def)
  next
    case (Some p)
    from w2 [OF lx Some] obtain pcase where pl: "getCaseByID D p = Some pcase" by blast
    have "p \<noteq> x" using px Some by simp
    from below1 [OF other1 [OF pl this]] show ?thesis by (simp add: pc_def Some)
  qed
  from undo_create [OF clUs, of pc otherHandlers fuel d] pcn
  obtain res U' where
    ac: "applyChange otherHandlers fuel (undoChange (Some (collection cx)) pc d) U = Some (Some res, U')"
    and rid: "caseID res = Some n"
    and nx: "nextCaseID U' = Suc n"
    and cls: "collectionClients U' = (collectionClients U)
        (collection cx \<mapsto> clU\<lparr>casesController := insertAt (oldIndex d) n (casesController clU)\<rparr>)"
    and objs: "\<And>i. caseObjects U' i =
        (if i = n
         then Some \<lparr>collection = collection cx, parent = pc, children = [],
                    valuesMap = fold (\<lambda>(a, v). putProperty a v)
                                  (zip (attributeIDs clU) (map snd (oldValues d))) [],
                    isDestroyed = False\<rparr>
         else if pc = Some i
              then map_option (\<lambda>c. c\<lparr>children := children c @ [n]\<rparr>) (caseObjects U i)
              else caseObjects U i)"
    unfolding n_def by blast
  have idx: "oldIndex d = indexOf x (casesController cl)"
    by (simp add: oi caseIDToIndexMap_def clD)
  have lst: "insertAt (oldIndex d) n (casesController clU) = map f (casesController cl)"
    unfolding idx clU_def f_def using list_restore [OF dcl xin] by simp
  have clU': "collectionClients U' (collection cx) = Some (cl\<lparr>casesController := map f (casesController cl)\<rparr>)"
    using lst by (simp add: cls clU_def)
  have found: "newCaseOf res (casesController (cl\<lparr>casesController := map f (casesController cl)\<rparr>)) = Some n"
  proof (rule newCaseOf_found [OF rid])
    have "n \<in> set (insertAt (oldIndex d) n (casesController clU))" by (rule insertAt_member)
    then show "n \<in> set (casesController (cl\<lparr>casesController := map f (casesController cl)\<rparr>))"
      by (simp add: lst)
  qed
  have step: "undoOneCase otherHandlers fuel d (m, U) = Some ((x, n) # m, U')"
    unfolding undoOneCase_def
    using cxU gc ac clU' found
    by (simp add: x_def [symmetric] Let_def pU f1_def [symmetric] pc_def [symmetric])
  \<comment> \<open>the values of the new case\<close>
  have vals: "fold (\<lambda>(a, v). putProperty a v) (zip (attributeIDs clU) (map snd (oldValues d))) []
      = valuesMap cx"
  proof -
    have "attributeIDs clU = attributeIDs cl" by (simp add: clU_def)
    then have "zip (attributeIDs clU) (map snd (oldValues d)) = valuesMap cx"
      using zip_prefix [OF pre] by (simp add: ov)
    moreover have "fold (\<lambda>(a, v). putProperty a v) (valuesMap cx) [] = [] @ valuesMap cx"
      by (rule fold_putProperty_sorted) (simp add: srt)
    ultimately show ?thesis by simp
  qed
  have liveU': "getCaseByID U' i =
        (if i = n
         then Some \<lparr>collection = collection cx, parent = pc, children = [],
                    valuesMap = valuesMap cx, isDestroyed = False\<rparr>
         else if pc = Some i
              then map_option (\<lambda>c. c\<lparr>children := children c @ [n]\<rparr>) (getCaseByID U i)
              else getCaseByID U i)" for i
    by (auto simp: getCaseByID_def storeFind_def objs vals split: option.splits)
  \<comment> \<open>the collections\<close>
  have A: "collectionClients U' cid =
          map_option (\<lambda>cl. cl\<lparr>casesController := map f (casesController cl)\<rparr>)
            (collectionClients D cid)" for cid
  proof (cases "cid = collection cx")
    case True
    then show ?thesis by (simp add: clU' clD)
  next
    case False
    have u: "collectionClients U' cid =
          map_option (\<lambda>cl. cl\<lparr>casesController := map f1 (casesController cl)\<rparr>)
            (collectionClients D cid)"
      using False by (simp add: cls r1 clients1)
    show ?thesis
    proof (cases "collectionClients D cid")
      case None
      then show ?thesis by (simp add: u)
    next
      case (Some cl')
      have "x \<notin> set (casesController cl')"
      proof
        assume "x \<in> set (casesController cl')"
        then obtain c where "getCaseByID D x = Some c" and "collection c = cid"
          using w4 [OF Some] by blast
        then show False using lx False by simp
      qed
      then have "map f (casesController cl') = map f1 (casesController cl')"
        by (auto simp: f_def)
      then show ?thesis by (simp add: u Some)
    qed
  qed
  \<comment> \<open>the cases\<close>
  have B: "\<exists>c'. getCaseByID U' (f i) = Some c' \<and> collection c' = collection c \<and>
                parent c' = map_option f (parent c) \<and> valuesMap c' = valuesMap c \<and>
                set (children c') = f ` set (children c)"
    if li: "getCaseByID D i = Some c" for i c
  proof (cases "i = x")
    case True
    then have c: "c = cx" using li lx by simp
    have "map_option f (parent cx) = pc"
      using px by (cases "parent cx") (auto simp: pc_def f_def)
    then show ?thesis
      using True by (simp add: liveU' f_def c ex)
  next
    case False
    have pnx: "parent c \<noteq> Some x" using nopar [OF li] .
    then have par: "map_option f (parent c) = map_option f1 (parent c)"
      by (cases "parent c") (auto simp: f_def)
    have fi: "f i = f1 i" using False by (simp add: f_def)
    let ?c1 = "if parent cx = Some i then c\<lparr>children := remove1 x (children c)\<rparr> else c"
    have l1: "getCaseByID D1 i = Some ?c1" by (rule other1 [OF li False])
    from r2 [OF l1] obtain c' where lu: "getCaseByID U (f1 i) = Some c'"
      and cc: "collection c' = collection c"
      and pp: "parent c' = map_option f1 (parent c)"
      and vv: "valuesMap c' = valuesMap c"
      and ch: "set (children c') = f1 ` set (children ?c1)"
      by auto
    have ne: "f1 i \<noteq> n" using below1 [OF l1] by simp
    have dc: "distinct (children c)" using w1 [OF li] by simp
    show ?thesis
    proof (cases "parent cx = Some i")
      case True
      then have pci: "pc = Some (f1 i)" by (simp add: pc_def)
      have xc: "x \<in> set (children c)" using w2 [OF lx True] li by auto
      have "set (children c') = f1 ` (set (children c) - {x})"
        using ch True dc by simp
      also have "\<dots> = f ` (set (children c) - {x})" by (auto simp: f_def)
      finally have "insert n (set (children c')) = f ` set (children c)"
        using xc by (auto simp: f_def)
      then have "set (children (c'\<lparr>children := children c' @ [n]\<rparr>)) = f ` set (children c)"
        by simp
      moreover have "getCaseByID U' (f i) = Some (c'\<lparr>children := children c' @ [n]\<rparr>)"
        using ne pci lu by (simp add: liveU' fi)
      ultimately show ?thesis
        using cc pp vv par by (intro exI [where x = "c'\<lparr>children := children c' @ [n]\<rparr>"]) simp
    next
      case no: False
      have pci: "pc \<noteq> Some (f1 i)"
      proof
        assume e: "pc = Some (f1 i)"
        then obtain p where p: "parent cx = Some p" and pe: "f1 p = f1 i"
          by (cases "parent cx") (auto simp: pc_def)
        from w2 [OF lx p] obtain pcase where pl: "getCaseByID D p = Some pcase" by blast
        have "p \<noteq> x" using px p by simp
        from r3 [OF other1 [OF pl this] l1 pe] show False using no p by simp
      qed
      have xc: "x \<notin> set (children c)"
      proof
        assume "x \<in> set (children c)"
        then have "parent cx = Some i" using w1 [OF li] lx by auto
        then show False using no by simp
      qed
      have "set (children c') = f1 ` set (children c)" using ch no by simp
      also have "\<dots> = f ` set (children c)" using xc by (auto simp: f_def)
      finally have "set (children c') = f ` set (children c)" .
      moreover have "getCaseByID U' (f i) = Some c'"
        using ne pci lu by (simp add: liveU' fi)
      ultimately show ?thesis
        using cc pp vv par by (intro exI [where x = c']) simp
    qed
  qed
  have C: "i = j" if li: "getCaseByID D i = Some ci" and lj: "getCaseByID D j = Some cj"
    and e: "f i = f j" for i j ci cj
  proof (cases "i = x")
    case True
    show ?thesis
    proof (cases "j = x")
      case True
      then show ?thesis using \<open>i = x\<close> by simp
    next
      case False
      have "f1 j < n" using below1 [OF other1 [OF lj False]] .
      then show ?thesis using e True False by (simp add: f_def)
    qed
  next
    case False
    show ?thesis
    proof (cases "j = x")
      case True
      have "f1 i < n" using below1 [OF other1 [OF li False]] .
      then show ?thesis using e True False by (simp add: f_def)
    next
      case jx: False
      have "f1 i = f1 j" using e False jx by (simp add: f_def)
      from r3 [OF other1 [OF li False] other1 [OF lj jx] this] show ?thesis .
    qed
  qed
  have rest: "restored f D U'"
    unfolding restored_def using A B C by blast
  \<comment> \<open>the destroyed case objects and the store\<close>
  have K1: "\<exists>c'. caseObjects U' i = Some c' \<and> collection c' = collection c \<and> parent c' = parent c"
    if o: "caseObjects D i = Some c" and dd: "isDestroyed c" for i c
  proof -
    have "i \<noteq> x" using o dd ox ndx by auto
    from deleteCase_other [OF ox o this] obtain c1 where "caseObjects D1 i = Some c1"
      and "collection c1 = collection c" and "parent c1 = parent c" and "isDestroyed c1"
      unfolding D1_def using dd by auto
    then obtain cu where cu: "caseObjects U i = Some cu" and "collection cu = collection c"
      and "parent cu = parent c"
      using k1 [of i c1] by auto
    moreover have "i \<noteq> n" using below [OF cu] by simp
    ultimately show ?thesis
      by (simp add: objs)
  qed
  have K2: "storeBound U'"
    unfolding storeBound_def nx
  proof (intro allI impI)
    fix i assume "Suc n \<le> i"
    then have "i \<noteq> n" and "caseObjects U i = None" using k2 [of i] by simp_all
    then show "caseObjects U' i = None" by (simp add: objs)
  qed
  have kp: "kept D U'"
    unfolding kept_def using K1 K2 by blast
  show ?thesis
    using step nx rest kp unfolding ff [symmetric] x_def n_def by blast
qed

lemma undoLoop_append:
  "undoLoop otherHandlers fuel (xs @ ys) st =
     (case undoLoop otherHandlers fuel xs st of
        None \<Rightarrow> None
      | Some st1 \<Rightarrow> undoLoop otherHandlers fuel ys st1)"
  by (induction xs arbitrary: st) (auto split: option.splits)

lemma deleteAll_Cons: "deleteAll (d # ds) ctx = deleteAll ds (deleteCase (oldCase d) ctx)"
  by (simp add: deleteAll_def)

lemma undo_all:
  "linked D \<Longrightarrow> listed D \<Longrightarrow> deletions D ds
   \<Longrightarrow> restored (newCaseFor m) (deleteAll ds D) U \<Longrightarrow> kept (deleteAll ds D) U
   \<Longrightarrow> \<exists>U'. undoLoop otherHandlers fuel (rev ds) (m, U)
          = Some (zip (map oldCase ds) (rev [nextCaseID U ..< nextCaseID U + length ds]) @ m, U') \<and>
        nextCaseID U' = nextCaseID U + length ds \<and>
        restored (newCaseFor (zip (map oldCase ds)
                     (rev [nextCaseID U ..< nextCaseID U + length ds]) @ m)) D U' \<and>
        kept D U'"
proof (induction ds arbitrary: D)
  case Nil
  then show ?case by (simp add: deleteAll_def)
next
  case (Cons d ds)
  let ?D1 = "deleteCase (oldCase d) D"
  let ?N = "nextCaseID U"
  let ?m1 = "zip (map oldCase ds) (rev [?N ..< ?N + length ds]) @ m"
  have dl: "deletable D d" and ds: "deletions ?D1 ds" using Cons.prems(3) by simp_all
  from dl obtain cx where lx: "getCaseByID D (oldCase d) = Some cx" and ex: "children cx = []"
    unfolding deletable_def by (auto split: option.splits)
  have lk1: "linked ?D1" by (rule linked_deleteCase [OF Cons.prems(1) lx ex])
  have ls1: "listed ?D1" by (rule listed_deleteCase [OF Cons.prems(2) lx])
  have r: "restored (newCaseFor m) (deleteAll ds ?D1) U" and k: "kept (deleteAll ds ?D1) U"
    using Cons.prems(4,5) by (simp_all add: deleteAll_Cons)
  from Cons.IH [OF lk1 ls1 ds r k] obtain U1 where
    l1: "undoLoop otherHandlers fuel (rev ds) (m, U) = Some (?m1, U1)"
    and n1: "nextCaseID U1 = ?N + length ds"
    and r1: "restored (newCaseFor ?m1) ?D1 U1" and k1: "kept ?D1 U1"
    by blast
  from undo_step [OF Cons.prems(1,2) dl r1 k1, of otherHandlers fuel] obtain U' where
    s: "undoOneCase otherHandlers fuel d (?m1, U1) = Some ((oldCase d, nextCaseID U1) # ?m1, U')"
    and n': "nextCaseID U' = Suc (nextCaseID U1)"
    and r': "restored (newCaseFor ((oldCase d, nextCaseID U1) # ?m1)) D U'"
    and k': "kept D U'"
    by blast
  have m': "(oldCase d, nextCaseID U1) # ?m1
      = zip (map oldCase (d # ds)) (rev [?N ..< ?N + length (d # ds)]) @ m"
    by (simp add: n1)
  have "undoLoop otherHandlers fuel (rev (d # ds)) (m, U)
      = Some ((oldCase d, nextCaseID U1) # ?m1, U')"
    by (simp add: undoLoop_append l1 s)
  moreover have "nextCaseID U' = ?N + length (d # ds)" by (simp add: n' n1)
  ultimately show ?case
    using r' k' unfolding m' by blast
qed

lemma storeBound_deleteCase: "storeBound ctx \<Longrightarrow> storeBound (deleteCase x ctx)"
proof (cases "caseObjects ctx x")
  case None
  assume "storeBound ctx"
  then show ?thesis using None by (simp add: deleteCase_def)
next
  case (Some c)
  assume "storeBound ctx"
  then show ?thesis
    unfolding storeBound_def deleteCase_nextCaseID deleteCase_dom [OF Some] .
qed

lemma storeBound_deleteAll: "storeBound ctx \<Longrightarrow> storeBound (deleteAll ds ctx)"
  by (induction ds arbitrary: ctx) (simp_all add: deleteAll_def storeBound_deleteCase)

lemma deleteAll_nextCaseID: "nextCaseID (deleteAll ds ctx) = nextCaseID ctx"
  by (induction ds arbitrary: ctx) (simp_all add: deleteAll_def deleteCase_nextCaseID)

lemma restored_same:
  assumes "collectionClients U = collectionClients D" and "caseObjects U = caseObjects D"
  shows "restored (newCaseFor []) D U"
proof -
  have f: "newCaseFor [] = (\<lambda>i. i)" by (auto simp: newCaseFor_def)
  have g: "getCaseByID U = getCaseByID D" using assms(2) by (auto simp: getCaseByID_def)
  have "map_option (\<lambda>cl. cl\<lparr>casesController := map (\<lambda>i. i) (casesController cl)\<rparr>) r = r"
    for r :: "collection_client option"
    by (cases r) simp_all
  then show ?thesis
    unfolding restored_def f g assms(1)
    by (auto simp: option.map_ident)
qed

lemma restored_fields:
  assumes "restored f D U" and "collectionClients U' = collectionClients U"
    and "caseObjects U' = caseObjects U"
  shows "restored f D U'"
proof -
  have g: "getCaseByID U' = getCaseByID U" using assms(3) by (auto simp: getCaseByID_def)
  show ?thesis using assms(1) unfolding restored_def g assms(2) .
qed

text \<open>
  Where parents, children and collections agree, the hierarchy is acyclic and every values
  map lists the attributes of its collection in order, undoing a deletion restores the
  context along the renaming that the command records: the undo returns, it gives the
  deleted cases the next free IDs (the last deleted case first), every collection has its
  cases at their old positions, and every case has its old values and its old parent, the
  parent renamed too where it was deleted.
\<close>

lemma delete_undo_round_trip:
  assumes "linked ctx" and "listed ctx" and "storeBound ctx" and "rankedChildren rank ctx"
    and "doDeleteCases fuel iChange ctx = Some (res, ch, ctx2)"
  shows "\<exists>cmd rest cmd' ctx3.
     undoStack ctx2 = cmd # rest \<and>
     undoDeleteCases otherHandlers fuel' cmd ctx2 = Some (cmd', ctx3) \<and>
     map fst (oldCaseToNewCaseMap cmd') = ids ch \<and>
     map snd (oldCaseToNewCaseMap cmd')
       = rev [nextCaseID ctx ..< nextCaseID ctx + length (ids ch)] \<and>
     restored (newCaseFor (oldCaseToNewCaseMap cmd')) ctx ctx3"
proof -
  let ?st0 = "\<lparr>delContext = ctx, delIds = [], delCollectionIDs = [], deletedCases = []\<rparr>"
  obtain cs st where
    d: "deleteEach fuel cs ?st0 = Some st"
    and ch: "ch = iChange\<lparr>ids := delIds st, collectionIDs := delCollectionIDs st\<rparr>"
    and ctx2: "ctx2 = (delContext st)\<lparr>undoStack :=
         \<lparr>commandName = ''data.deleteCases'', commandChange = ch,
           undoData = deletedCases st, oldCaseToNewCaseMap = []\<rparr> # undoStack (delContext st),
         dirtyCount := Suc (dirtyCount (delContext st))\<rparr>"
    using assms(5)
    by (auto simp: doDeleteCases_def Let_def split: option.splits)
  define cmd where "cmd = \<lparr>commandName = ''data.deleteCases'', commandChange = ch,
           undoData = deletedCases st, oldCaseToNewCaseMap = []\<rparr>"
  define ds where "ds = deletedCases st"
  have i0: "deleteInv rank ctx ?st0" using assms(4) by (simp add: deleteInv_def)
  have t0: "traced ctx ?st0" using assms(1) by (simp add: traced_def deleteAll_def)
  have inv: "deleteInv rank ctx st" using deleteEach_invariant [OF d i0] .
  have tr: "traced ctx st" using deleteEach_trace [OF d i0 t0] .
  have dels: "deletions ctx ds" and fin: "deleteAll ds ctx = delContext st"
    using tr unfolding traced_def ds_def by blast+
  have ids: "map oldCase ds = ids ch"
    using inv by (simp add: deleteInv_def ds_def ch)
  have r0: "restored (newCaseFor []) (deleteAll ds ctx) ctx2"
    by (rule restored_same) (simp_all add: ctx2 fin)
  have "storeBound (deleteAll ds ctx)" using storeBound_deleteAll [OF assms(3)] .
  then have sb: "storeBound ctx2"
    unfolding fin by (simp add: storeBound_def ctx2)
  have k0: "kept (deleteAll ds ctx) ctx2"
    unfolding kept_def using sb by (auto simp: fin ctx2)
  have n2: "nextCaseID ctx2 = nextCaseID ctx"
    using deleteAll_nextCaseID [of ds ctx] by (simp add: fin ctx2)
  let ?m = "zip (map oldCase ds) (rev [nextCaseID ctx ..< nextCaseID ctx + length ds])"
  from undo_all [OF assms(1,2) dels r0 k0, of otherHandlers fuel'] obtain U' where
    l: "undoLoop otherHandlers fuel' (rev ds) ([], ctx2) = Some (?m, U')"
    and r: "restored (newCaseFor ?m) ctx U'"
    unfolding n2 by auto
  define cmd' where "cmd' = cmd\<lparr>oldCaseToNewCaseMap := ?m\<rparr>"
  define ctx3 where "ctx3 = U'\<lparr>dirtyCount := Suc (dirtyCount U')\<rparr>"
  have u: "undoDeleteCases otherHandlers fuel' cmd ctx2 = Some (cmd', ctx3)"
    unfolding undoDeleteCases_def using l by (simp add: cmd_def ds_def cmd'_def ctx3_def)
  have s: "undoStack ctx2 = cmd # undoStack (delContext st)"
    by (simp add: ctx2 cmd_def)
  have m1: "map fst (oldCaseToNewCaseMap cmd') = ids ch"
    by (simp add: cmd'_def ids [symmetric])
  have "length (ids ch) = length ds" using ids by (metis length_map)
  then have m2: "map snd (oldCaseToNewCaseMap cmd')
       = rev [nextCaseID ctx ..< nextCaseID ctx + length (ids ch)]"
    by (simp add: cmd'_def)
  have r3: "restored (newCaseFor (oldCaseToNewCaseMap cmd')) ctx ctx3"
    using restored_fields [OF r, of ctx3] by (simp add: cmd'_def ctx3_def)
  show ?thesis
    using s u m1 m2 r3 by blast
qed

lemmas undo_defs =
  undoDeleteCases_def undoOneCase_def undoChange_def newCaseFor_def newCaseOf_def

lemma exampleContext_cases:
  "getCaseByID exampleContext i =
     (if i = 10 then Some family10
      else if i = 11 then Some \<lparr>collection = 2, parent = Some 10, children = [],
                 valuesMap = [(1, StrV ''Smith''), (2, StrV ''Ann'')], isDestroyed = False\<rparr>
      else if i = 12 then Some \<lparr>collection = 2, parent = Some 10, children = [],
                 valuesMap = [(1, StrV ''Smith''), (2, StrV ''Bob'')], isDestroyed = False\<rparr>
      else if i = 13 then Some \<lparr>collection = 2, parent = Some 10, children = [],
                 valuesMap = [(1, StrV ''Smith''), (2, StrV ''Cy'')], isDestroyed = False\<rparr>
      else None)"
  by (simp add: exampleContext_def getCaseByID_def storeFind_def family10_def)

lemma exampleContext_clients:
  "collectionClients exampleContext cid =
     (if cid = 1 then Some families else if cid = 2 then Some people else None)"
  by (simp add: exampleContext_def families_def people_def)

lemma exampleContext_linked: "linked exampleContext"
  unfolding linked_def exampleContext_cases
  by (auto simp: family10_def split: if_splits)

lemma exampleContext_listed: "listed exampleContext"
  unfolding listed_def exampleContext_cases exampleContext_clients
  by (auto simp: family10_def families_def people_def split: if_splits)

lemma exampleContext_storeBound: "storeBound exampleContext"
  by (simp add: storeBound_def exampleContext_def)

lemma exampleContext_ranked: "rankedChildren (\<lambda>i. if i = 10 then 1 else 0) exampleContext"
  by (simp add: rankedChildren_def exampleContext_def)

lemma delete_undo_round_trip_example:
  "\<exists>res ctx2 cmd rest cmd' ctx3.
     doDeleteCases 2 deleteFamilyAndAnn exampleContext
       = Some (res, deleteFamilyAndAnn\<lparr>ids := [11, 13, 12, 10], collectionIDs := [2, 1]\<rparr>, ctx2) \<and>
     undoStack ctx2 = cmd # rest \<and>
     undoDeleteCases noHandlers 0 cmd ctx2 = Some (cmd', ctx3) \<and>
     oldCaseToNewCaseMap cmd' = [(11, 17), (13, 16), (12, 15), (10, 14)] \<and>
     map_option casesController (collectionClients ctx3 1) = Some [14] \<and>
     map_option casesController (collectionClients ctx3 2) = Some [17, 15, 16] \<and>
     (\<exists>c'. getCaseByID ctx3 17 = Some c' \<and> collection c' = 2 \<and> parent c' = Some 14 \<and>
           valuesMap c' = [(1, StrV ''Smith''), (2, StrV ''Ann'')])"
proof -
  obtain res ctx2 where d: "doDeleteCases 2 deleteFamilyAndAnn exampleContext =
      Some (res, deleteFamilyAndAnn\<lparr>ids := [11, 13, 12, 10], collectionIDs := [2, 1]\<rparr>, ctx2)"
    using deleteFamilyAndAnn_run by blast
  from delete_undo_round_trip [OF exampleContext_linked exampleContext_listed
      exampleContext_storeBound exampleContext_ranked d, of noHandlers 0]
  obtain cmd rest cmd' ctx3 where
    s: "undoStack ctx2 = cmd # rest"
    and u: "undoDeleteCases noHandlers 0 cmd ctx2 = Some (cmd', ctx3)"
    and m1: "map fst (oldCaseToNewCaseMap cmd') = [11, 13, 12, 10]"
    and m2: "map snd (oldCaseToNewCaseMap cmd') = rev [14 ..< 14 + 4]"
    and r: "restored (newCaseFor (oldCaseToNewCaseMap cmd')) exampleContext ctx3"
    by (auto simp: exampleContext_def)
  have "[14 ..< 14 + 4] = [14, 15, 16, 17::nat]" by (simp add: upt_rec)
  then have m2': "map snd (oldCaseToNewCaseMap cmd') = [17, 16, 15, 14]" using m2 by simp
  have m: "oldCaseToNewCaseMap cmd' = [(11, 17), (13, 16), (12, 15), (10, 14)]"
    using zip_map_fst_snd [of "oldCaseToNewCaseMap cmd'"] unfolding m1 m2' by simp
  have c1: "map_option casesController (collectionClients ctx3 1) = Some [14]"
    and c2: "map_option casesController (collectionClients ctx3 2) = Some [17, 15, 16]"
    using r unfolding restored_def m
    by (simp_all add: exampleContext_clients families_def people_def newCaseFor_def)
  have "\<exists>c'. getCaseByID ctx3 (newCaseFor (oldCaseToNewCaseMap cmd') 11) = Some c' \<and>
        collection c' = 2 \<and>
        parent c' = map_option (newCaseFor (oldCaseToNewCaseMap cmd')) (Some 10) \<and>
        valuesMap c' = [(1, StrV ''Smith''), (2, StrV ''Ann'')]"
    using r unfolding restored_def exampleContext_cases
    by (elim conjE allE [where x = 11]) auto
  then have c3: "\<exists>c'. getCaseByID ctx3 17 = Some c' \<and> collection c' = 2 \<and> parent c' = Some 14 \<and>
           valuesMap c' = [(1, StrV ''Smith''), (2, StrV ''Ann'')]"
    by (simp add: m newCaseFor_def)
  show ?thesis using d s u m c1 c2 c3 by blast
qed

text \<open>
  C6. Undoing the deletion of a case should re-create the case with the values it had.
  The undo reads the values of the old values map in the order of its keys and hands them
  to \<open>createCase\<close>, which assigns them in the order of the collection's attributes.
  In a collection that lists its attributes in the order 2, 1, the case 10 is created
  with \<open>north\<close> for attribute 2 and \<open>east\<close> for attribute 1; it is deleted, and the
  undo re-creates it as the case 11, at the index of the old case, with \<open>east\<close> for
  attribute 2 and \<open>north\<close> for attribute 1.
\<close>

theorem undo_swaps_reordered_values:
  "\<exists>r1 ctx1 r2 ctx2 cmd rest cmd' ctx3.
     applyChange noHandlers 1 createPoint pointsContext = Some (r1, ctx1) \<and>
     map_option (\<lambda>c. map (getValue c) [2, 1]) (getCaseByID ctx1 10)
       = Some [StrV ''north'', StrV ''east''] \<and>
     applyChange noHandlers 1 deletePoint ctx1 = Some (r2, ctx2) \<and>
     undoStack ctx2 = cmd # rest \<and>
     undoDeleteCases noHandlers 1 cmd ctx2 = Some (cmd', ctx3) \<and>
     oldCaseToNewCaseMap cmd' = [(10, 11)] \<and>
     map_option casesController (collectionClients ctx3 1) = Some [11] \<and>
     map_option (\<lambda>c. map (getValue c) [2, 1]) (getCaseByID ctx3 11)
       = Some [StrV ''east'', StrV ''north'']"
  by (simp add: pointsContext_def createPoint_def deletePoint_def exampleChange_def noHandlers_def
      apply_defs create_defs delete_defs lookup_defs undo_defs Let_def)

end
